theory Spec2Isabelle
  imports Main
begin

section \<open>Observer: watching the document for inserted nodes\<close>

text \<open>
  The class \<open>Observer\<close> keeps a list of listeners and is told by the platform's
  \<open>MutationObserver\<close> about every batch of mutation records. A DOM node is a reference;
  the model names nodes by natural numbers. What the platform answers during one call of
  \<open>check\<close> (the parent of a node, the result of \<open>querySelectorAll\<close>) is a parameter of
  the model, the \<open>document\<close> snapshot; the user callbacks are opaque and are taken not to
  change the document or the observer while \<open>check\<close> runs.
\<close>

type_synonym node = nat

record mutationRecord =
  addedNodes :: "node list"
  removedNodes :: "node list"

record document =
  parentNode :: "node \<Rightarrow> node option"
  querySelectorAll :: "node \<Rightarrow> string \<Rightarrow> node list"
  document_querySelectorAll :: "string \<Rightarrow> node list"

text \<open>
  The field \<open>callback\<close> of a listener is tested with \<open>typeof ... === 'function'\<close>
  before it is called. \<open>fired\<close> is a history variable of the model: the nodes the
  callback of this listener has been called with, in order. An exception of the callback
  is caught and written to the console; it changes nothing else.
\<close>

datatype callback = Function nat | NotFunction

record listener =
  selector :: string
  callback :: callback
  alreadyExistedNodes :: "node list"
  fired :: "node list"

type_synonym observer = "listener list"

definition watch :: "document \<Rightarrow> string \<Rightarrow> callback \<Rightarrow> observer \<Rightarrow> observer" where
  "watch d sel cb ob =
     ob @ [\<lparr>selector = sel, callback = cb,
            alreadyExistedNodes = document_querySelectorAll d sel, fired = []\<rparr>]"

text \<open>The body of \<open>parentNode.querySelectorAll(listener.selector).forEach\<close>.\<close>

fun check_inserted :: "node list \<Rightarrow> listener \<Rightarrow> listener" where
  "check_inserted [] l = l"
| "check_inserted (e # es) l =
     (if e \<notin> set (alreadyExistedNodes l) then
        (case callback l of
           Function f \<Rightarrow>
             check_inserted es
               (l\<lparr>alreadyExistedNodes := alreadyExistedNodes l @ [e], fired := fired l @ [e]\<rparr>)
         | NotFunction \<Rightarrow> check_inserted es l)
      else check_inserted es l)"

definition check_added :: "document \<Rightarrow> node \<Rightarrow> listener \<Rightarrow> listener" where
  "check_added d a l =
     (case parentNode d a of
        None \<Rightarrow> l
      | Some p \<Rightarrow> check_inserted (querySelectorAll d p (selector l)) l)"

text \<open>
  For one removed node, \<open>alreadyExistedNodes.forEach\<close> walks the array it was started
  on, while each hit replaces the field by a filtered copy of its current value.
\<close>

definition check_removed :: "node \<Rightarrow> listener \<Rightarrow> listener" where
  "check_removed r l =
     l\<lparr>alreadyExistedNodes :=
         foldl (\<lambda>cur existed. if existed = r then filter (\<lambda>n. n \<noteq> existed) cur else cur)
           (alreadyExistedNodes l) (alreadyExistedNodes l)\<rparr>"

definition check_record :: "document \<Rightarrow> mutationRecord \<Rightarrow> listener \<Rightarrow> listener" where
  "check_record d r l =
     foldl (\<lambda>l' x. check_removed x l') (foldl (\<lambda>l' a. check_added d a l') l (addedNodes r))
       (removedNodes r)"

definition check_listener :: "document \<Rightarrow> mutationRecord list \<Rightarrow> listener \<Rightarrow> listener" where
  "check_listener d rs l = foldl (\<lambda>l' r. check_record d r l') l rs"

definition check :: "document \<Rightarrow> mutationRecord list \<Rightarrow> observer \<Rightarrow> observer" where
  "check d rs ob = map (check_listener d rs) ob"

text \<open>
  A page's life after a registration: a sequence of batches, each delivered with the
  document as it is when \<open>check\<close> runs.
\<close>

definition deliveries :: "(document \<times> mutationRecord list) list \<Rightarrow> observer \<Rightarrow> observer" where
  "deliveries bs ob = foldl (\<lambda>ob' (d, rs). check d rs ob') ob bs"

text \<open>How often the listener's callback has been called with node \<open>n\<close>.\<close>

definition times_fired :: "listener \<Rightarrow> node \<Rightarrow> nat" where
  "times_fired l n = count_list (fired l) n"

text \<open>No record of the batches reports \<open>n\<close> as removed.\<close>

definition never_removed :: "node \<Rightarrow> (document \<times> mutationRecord list) list \<Rightarrow> bool" where
  "never_removed n bs = (\<forall>b \<in> set bs. \<forall>r \<in> set (snd b). n \<notin> set (removedNodes r))"

text \<open>
  Some record of the batches has an added node with a parent under which the selector
  finds \<open>n\<close>.
\<close>

definition hit :: "document \<Rightarrow> string \<Rightarrow> node \<Rightarrow> node \<Rightarrow> bool" where
  "hit d sel n a =
     (case parentNode d a of None \<Rightarrow> False | Some p \<Rightarrow> n \<in> set (querySelectorAll d p sel))"

definition mentioned :: "string \<Rightarrow> node \<Rightarrow> (document \<times> mutationRecord list) list \<Rightarrow> bool" where
  "mentioned sel n bs =
     (\<exists>b \<in> set bs. \<exists>r \<in> set (snd b). \<exists>a \<in> set (addedNodes r). hit (fst b) sel n a)"

text \<open>
  What one listener goes through over the batches, and the relation between a listener
  before and after some processing, as far as node \<open>n\<close> is concerned: \<open>m\<close> says
  whether the processing met \<open>n\<close> among the selected nodes.
\<close>

definition listener_run :: "(document \<times> mutationRecord list) list \<Rightarrow> listener \<Rightarrow> listener" where
  "listener_run bs l = foldl (\<lambda>l' b. check_listener (fst b) (snd b) l') l bs"

definition advance :: "node \<Rightarrow> bool \<Rightarrow> listener \<Rightarrow> listener \<Rightarrow> bool" where
  "advance n m l l' \<longleftrightarrow>
     callback l' = callback l \<and> selector l' = selector l \<and>
     (n \<in> set (alreadyExistedNodes l') \<longleftrightarrow>
        n \<in> set (alreadyExistedNodes l) \<or> (callback l \<noteq> NotFunction \<and> m)) \<and>
     times_fired l' n =
       times_fired l n +
         (if n \<notin> set (alreadyExistedNodes l) \<and> n \<in> set (alreadyExistedNodes l') then 1 else 0)"

text \<open>
  A document for examples: \<open>existing\<close> are the nodes the selector \<open>sel\<close> finds in
  the whole document, \<open>parents\<close> gives the parent of a node, \<open>matches\<close> the nodes
  the selector finds under a parent.
\<close>

definition example_document ::
  "string \<Rightarrow> node list \<Rightarrow> (node \<times> node) list \<Rightarrow> (node \<times> node list) list \<Rightarrow> document" where
  "example_document sel existing parents matches =
     \<lparr>parentNode = map_of parents,
      querySelectorAll =
        (\<lambda>p s. if s = sel then (case map_of matches p of None \<Rightarrow> [] | Some ns \<Rightarrow> ns) else []),
      document_querySelectorAll = (\<lambda>s. if s = sel then existing else [])\<rparr>"

section \<open>REST: requests, chains of steps, forms\<close>

subsection \<open>Values, steps and payloads\<close>

text \<open>
  The steps of a chain and the fields of a step are JavaScript values that the code probes
  at run time. The model keeps the values the code tells apart: \<open>undefined\<close>,
  \<open>null\<close>, numbers, strings and functions (a function is known by its identity).
  A plain object is its list of keys and values in the order in which
  \<open>Object.keys\<close> gives them: the keys that are array indices first, in ascending
  order, then the other keys in insertion order. Booleans and nested objects inside a
  step are not modelled.
\<close>

type_synonym fn = nat

datatype jsval = JUndefined | JNull | JNum nat | JStr string | JFun fn

definition truthy :: "jsval \<Rightarrow> bool" where
  "truthy v =
     (case v of JUndefined \<Rightarrow> False | JNull \<Rightarrow> False | JNum n \<Rightarrow> n \<noteq> 0
      | JStr s \<Rightarrow> s \<noteq> [] | JFun f \<Rightarrow> True)"

type_synonym obj = "(string \<times> jsval) list"

definition has_key :: "string \<Rightarrow> obj \<Rightarrow> bool" where
  "has_key k ob = (map_of ob k \<noteq> None)"

definition obj_get :: "string \<Rightarrow> obj \<Rightarrow> jsval" where
  "obj_get k ob = (case map_of ob k of None \<Rightarrow> JUndefined | Some v \<Rightarrow> v)"

text \<open>
  A key is an array index when it is the decimal numeral, without leading zeros, of a
  number up to \<open>2^32 - 2\<close>.
\<close>

definition index_value :: "string \<Rightarrow> nat" where
  "index_value k =
     foldl (\<lambda>n c. 10 * n +
              (case map_of (zip ''0123456789'' [0, 1, 2, 3, 4, 5, 6, 7, 8, 9]) c of
                 None \<Rightarrow> 0
               | Some d \<Rightarrow> d)) 0 k"

definition is_index :: "string \<Rightarrow> bool" where
  "is_index k =
     (k \<noteq> [] \<and> list_all (\<lambda>c. c \<in> set ''0123456789'') k \<and>
      (k = ''0'' \<or> take 1 k \<noteq> ''0'') \<and> index_value k < 4294967295)"

text \<open>
  The assignment \<open>data[k] = v\<close>: an existing key keeps its place; a new array index
  goes among the array indices, in order; any other new key goes to the end.
\<close>

fun obj_replace :: "string \<Rightarrow> jsval \<Rightarrow> obj \<Rightarrow> obj" where
  "obj_replace k v [] = []"
| "obj_replace k v ((k', v') # ob) =
     (if k' = k then (k, v) # ob else (k', v') # obj_replace k v ob)"

fun obj_insert_index :: "string \<Rightarrow> jsval \<Rightarrow> obj \<Rightarrow> obj" where
  "obj_insert_index k v [] = [(k, v)]"
| "obj_insert_index k v ((k', v') # ob) =
     (if is_index k' \<and> index_value k' < index_value k then (k', v') # obj_insert_index k v ob
      else (k, v) # (k', v') # ob)"

definition obj_set :: "string \<Rightarrow> jsval \<Rightarrow> obj \<Rightarrow> obj" where
  "obj_set k v ob =
     (if has_key k ob then obj_replace k v ob
      else if is_index k then obj_insert_index k v ob
      else ob @ [(k, v)])"

definition obj_delete :: "string \<Rightarrow> obj \<Rightarrow> obj" where
  "obj_delete k ob = filter (\<lambda>kv. fst kv \<noteq> k) ob"

datatype step = StepFunction fn | StepString string | StepObject obj | StepNull

type_synonym entries = "(string \<times> string) list"

text \<open>
  The \<open>data\<close> argument of \<open>request\<close>: a \<open>FormData\<close>, a form element (the
  platform turns it into its \<open>FormData\<close>), another truthy value, read as an object
  through \<open>Object.keys\<close>, or a falsy value.
\<close>

datatype payload =
    FormDataPayload entries
  | FormElementPayload entries
  | ObjectPayload obj
  | FalsyPayload

type_synonym response = string

datatype error =
    TypeError
  | DataNotObject
  | MissingMethodOrFunction
  | NotAForm
  | NoDataAttribute
  | NotElementNorArray
  | BadJSON
  | NotAnArray
  | UserException

subsection \<open>Forms\<close>

text \<open>
  A field tagged with \<open>data-faze-restapi-json-name\<close>, with what \<open>formSubmit\<close>
  reads of it, and a form: its \<open>FormData\<close>, its tagged fields in document order, the
  \<open>action\<close> attribute, the values of \<open>data-faze-restapi-notification\<close> of its
  notification regions in document order, and the attributes
  \<open>data-faze-restapi-form\<close> and \<open>data-faze-restapi-json-merge\<close>.
\<close>

record field =
  fazeRestapiJsonName :: string
  field_type :: string
  checked :: bool
  field_name :: string
  field_value :: string
  fazeRestapiJsonKey :: "string option"
  fazeRestapiJsonValue :: "string option"

record form =
  form_data :: entries
  jsonFields :: "field list"
  form_action :: "string option"
  notifications :: "string list"
  fazeRestapiForm :: "string option"
  fazeRestapiJsonMerge :: "string option"

subsection \<open>The environment and the state\<close>

text \<open>
  What the platform and the page supply: which global names are functions, whether a
  call of a user function raises (given the response or \<open>null\<close> it is called with;
  \<open>None\<close> also stands for a call without arguments), how a function and a number
  print, the serialisation of \<open>URLSearchParams\<close>, \<open>JSON.parse\<close> on the text of a
  chain, the location of the page, and whether writing a response into the regions of a
  routing key raises. A text that \<open>JSON.parse\<close> accepts gives an array of steps, an
  object that is no array and has the property \<open>length\<close> equal to 0, \<open>null\<close>,
  or any other value.
\<close>

datatype parsed =
    ParsedArray "step list"
  | ParsedLengthZero
  | ParsedNull
  | ParsedOther
  | ParseError

record env =
  window_function :: "string \<Rightarrow> fn option"
  throws :: "fn \<Rightarrow> response option \<Rightarrow> bool"
  function_toString :: "fn \<Rightarrow> string"
  number_toString :: "nat \<Rightarrow> string"
  urlSearchParams :: "entries \<Rightarrow> string"
  json_parse :: "string \<Rightarrow> parsed"
  location_pathname :: string
  location_href :: string
  routing_throws :: "string \<Rightarrow> string \<Rightarrow> response \<Rightarrow> bool"

record fetchCall =
  fetch_url :: string
  fetch_method :: string
  fetch_body :: "entries option"

text \<open>
  The function \<open>request\<close> hands to the promise of \<open>fetch\<close> a closure over
  \<open>callbackSuccess\<close>. The model names the closures the code builds: none, a user
  function, the closure of a request step of \<open>chain\<close> (the step's own callback, the
  remaining steps, the final callback) and the closure of \<open>formSubmit\<close>.
\<close>

datatype callbackSuccess =
    NoCallback
  | UserCallback fn
  | ChainCallback jsval "step list" "fn option"
  | FormCallback form "fn option"

text \<open>
  The trace of what happens. The events of a step of a chain carry \<open>chainData.length\<close>
  after the \<open>shift\<close>, the number of steps still to come: within one chain it tells
  the steps apart.
\<close>

datatype stepEvent =
    CalledFunction fn
  | CalledGlobal string
  | CalledNamed string
  | Requested nat
  | ResponseArrived "response option"
  | CalledCallback fn "response option"

datatype event =
    Step nat stepEvent
  | Fetch nat fetchCall
  | CallbackSuccessCalled fn "response option"
  | FinalCallbackCalled fn
  | Inserted string string
  | Notified nat bool
  | ConsoleError

record pendingRequest =
  pending_dataType :: jsval
  pending_data :: payload
  pending_callback :: callbackSuccess

record element =
  fazeRestapiAttr :: "string option"
  element_name :: string
  nodeName :: string
  element_value :: string
  contenteditable :: bool
  innerHTML :: string
  selected_value :: "string option"

datatype timer = DelayedChain element "step list" "fn option"

record state =
  trace :: "event list"
  pending :: "(nat \<times> pendingRequest) list"
  timers :: "(nat \<times> timer) list"
  next_id :: nat

definition initial :: state where
  "initial = \<lparr>trace = [], pending = [], timers = [], next_id = 0\<rparr>"

definition emit :: "event list \<Rightarrow> state \<Rightarrow> state" where
  "emit es st = st\<lparr>trace := trace st @ es\<rparr>"

text \<open>\<open>try { f(x) } catch (error) { console.error(...) }\<close>, with the event of the call.\<close>

definition guarded :: "env \<Rightarrow> fn \<Rightarrow> response option \<Rightarrow> event \<Rightarrow> state \<Rightarrow> state" where
  "guarded env f x ev st = emit (ev # (if throws env f x then [ConsoleError] else [])) st"

subsection \<open>Strings\<close>

text \<open>
  \<open>toLowerCase\<close> on the letters A to Z; no other character becomes one of the
  letters of \<open>post\<close>.
\<close>

definition toLowerCase :: "string \<Rightarrow> string" where
  "toLowerCase s =
     map (\<lambda>c. case map_of (zip ''ABCDEFGHIJKLMNOPQRSTUVWXYZ'' ''abcdefghijklmnopqrstuvwxyz'') c of
                None \<Rightarrow> c
              | Some d \<Rightarrow> d) s"

definition startsWith :: "string \<Rightarrow> string \<Rightarrow> bool" where
  "startsWith s p = (take (length p) s = p)"

definition includes_dot :: "string \<Rightarrow> bool" where
  "includes_dot s = (CHR ''.'' \<in> set s)"

text \<open>\<open>s.substring(0, s.indexOf('.'))\<close> and \<open>s.substring(s.indexOf('.') + 1)\<close>.\<close>

definition before_dot :: "string \<Rightarrow> string" where
  "before_dot s = takeWhile (\<lambda>c. c \<noteq> CHR ''.'') s"

definition after_dot :: "string \<Rightarrow> string" where
  "after_dot s = drop 1 (dropWhile (\<lambda>c. c \<noteq> CHR ''.'') s)"

definition js_string :: "env \<Rightarrow> jsval \<Rightarrow> string" where
  "js_string env v =
     (case v of
        JUndefined \<Rightarrow> ''undefined''
      | JNull \<Rightarrow> ''null''
      | JNum n \<Rightarrow> number_toString env n
      | JStr s \<Rightarrow> s
      | JFun f \<Rightarrow> function_toString env f)"

subsection \<open>REST.request\<close>

definition formData_of :: "env \<Rightarrow> payload \<Rightarrow> entries" where
  "formData_of env data =
     (case data of
        FormDataPayload es \<Rightarrow> es
      | FormElementPayload es \<Rightarrow> es
      | ObjectPayload ob \<Rightarrow> map (\<lambda>kv. (fst kv, js_string env (snd kv))) ob
      | FalsyPayload \<Rightarrow> [])"

text \<open>
  \<open>request\<close> up to the call of \<open>fetch\<close>: the call is written to the trace and the
  handlers wait in \<open>pending\<close> for the transport to settle.
\<close>

definition request ::
  "env \<Rightarrow> string \<Rightarrow> jsval \<Rightarrow> string \<Rightarrow> payload \<Rightarrow> callbackSuccess \<Rightarrow> state \<Rightarrow> error option \<times> state" where
  "request env method type url data callbackSuccess st =
     (let post = (toLowerCase method = ''post'');
          dataType = (if truthy type then type else if post then JStr ''json'' else JStr ''html'');
          testedMethod = (if post then ''POST'' else ''GET'')
      in if data = FalsyPayload then (Some DataNotObject, st)
         else
           (let formData = formData_of env data;
                fetchOptions =
                  \<lparr>fetch_url = url @ ''?'' @ urlSearchParams env formData,
                   fetch_method = testedMethod,
                   fetch_body = (if post then Some formData else None)\<rparr>
            in (None,
                st\<lparr>trace := trace st @ [Fetch (next_id st) fetchOptions],
                   pending := pending st @
                     [(next_id st,
                       \<lparr>pending_dataType = dataType, pending_data = data,
                        pending_callback = callbackSuccess\<rparr>)],
                   next_id := Suc (next_id st)\<rparr>)))"

subsection \<open>REST.chain\<close>

definition page_url :: "env \<Rightarrow> jsval \<Rightarrow> string" where
  "page_url env page =
     (let p = js_string env page in if take 1 p = ''/'' then p else ''/'' @ p @ ''.txt'')"

definition step_url :: "env \<Rightarrow> obj \<Rightarrow> string" where
  "step_url env data =
     (if truthy (obj_get ''page'' data) \<and> truthy (obj_get ''module'' data)
        then page_url env (obj_get ''page'' data)
      else if truthy (obj_get ''module'' data) then location_pathname env
      else if truthy (obj_get ''page'' data) then page_url env (obj_get ''page'' data)
      else location_pathname env)"

definition with_show :: "obj \<Rightarrow> obj" where
  "with_show data =
     (if truthy (obj_get ''module'' data) then obj_set ''show'' (obj_get ''module'' data) data
      else data)"

definition with_method_fields :: "env \<Rightarrow> string \<Rightarrow> obj \<Rightarrow> obj" where
  "with_method_fields env method data =
     (if toLowerCase method = ''post''
        then obj_set ''mime'' (JStr ''json'')
               (obj_set ''from'' (JStr (location_href env))
                  (obj_set ''update'' (obj_get ''module'' data) data))
      else if \<not> has_key ''mime'' data then obj_set ''mime'' (JStr ''txt'') data
      else data)"

definition strip_control :: "obj \<Rightarrow> obj" where
  "strip_control data =
     obj_delete ''callback'' (obj_delete ''page'' (obj_delete ''module'' (obj_delete ''method'' data)))"

text \<open>
  \<open>chain\<close> on an array. A call returns when the list is empty, after a string step, when
  \<open>request\<close> has been called, or by raising; the other branches call \<open>chain\<close>
  again on the rest of the array. A string that names no global function falls into the
  last branch, where \<open>'function' in data\<close> raises on it, as \<open>data.type\<close> does on
  \<open>null\<close>.
\<close>

fun chain_array :: "env \<Rightarrow> step list \<Rightarrow> fn option \<Rightarrow> state \<Rightarrow> error option \<times> state" where
  "chain_array env [] finalCallback st =
     (case finalCallback of
        None \<Rightarrow> (None, st)
      | Some f \<Rightarrow> (None, guarded env f None (FinalCallbackCalled f) st))"
| "chain_array env (StepNull # chainData) finalCallback st = (Some TypeError, st)"
| "chain_array env (StepFunction f # chainData) finalCallback st =
     chain_array env chainData finalCallback
       (guarded env f None (Step (length chainData) (CalledFunction f)) st)"
| "chain_array env (StepString name # chainData) finalCallback st =
     (case window_function env name of
        Some g \<Rightarrow> (None, guarded env g None (Step (length chainData) (CalledGlobal name)) st)
      | None \<Rightarrow> (Some TypeError, st))"
| "chain_array env (StepObject data # chainData) finalCallback st =
     (if has_key ''function'' data then
        chain_array env chainData finalCallback
          (case obj_get ''function'' data of
             JStr functionName \<Rightarrow>
               (case window_function env functionName of
                  Some g \<Rightarrow> guarded env g None (Step (length chainData) (CalledNamed functionName)) st
                | None \<Rightarrow> st)
           | _ \<Rightarrow> st)
      else if has_key ''method'' data then
        (case obj_get ''method'' data of
           JStr method \<Rightarrow>
             request env method
               (if truthy (obj_get ''type'' data) then obj_get ''type'' data else JNull)
               (step_url env data)
               (ObjectPayload (strip_control (with_method_fields env method (with_show data))))
               (ChainCallback (obj_get ''callback'' data) chainData finalCallback)
               (emit [Step (length chainData) (Requested (next_id st))] st)
         | _ \<Rightarrow> (Some TypeError, st))
      else (Some MissingMethodOrFunction, st))"

text \<open>
  \<open>chain\<close> on its argument: an array is taken as it is, a string is parsed, anything
  else makes the call return at once. When \<open>JSON.parse\<close> raises, the error is written
  to the console and \<open>chainData\<close> stays \<open>undefined\<close>. A parsed value that is no
  array but has the \<open>length\<close> 0 passes the test \<open>chainData.length === 0\<close> as the
  empty array does; on any other value that is no array, \<open>chainData.shift()\<close> raises.
\<close>

datatype chainRawData = RawArray "step list" | RawString string | RawOther

definition chain :: "env \<Rightarrow> chainRawData \<Rightarrow> fn option \<Rightarrow> state \<Rightarrow> error option \<times> state" where
  "chain env chainRawData finalCallback st =
     (case chainRawData of
        RawArray chainData \<Rightarrow> chain_array env chainData finalCallback st
      | RawString s \<Rightarrow>
          (case json_parse env s of
             ParsedArray chainData \<Rightarrow> chain_array env chainData finalCallback st
           | ParsedLengthZero \<Rightarrow> chain_array env [] finalCallback st
           | ParsedNull \<Rightarrow> (Some TypeError, st)
           | ParsedOther \<Rightarrow> (Some TypeError, st)
           | ParseError \<Rightarrow> (Some TypeError, emit [ConsoleError] st))
      | RawOther \<Rightarrow> (None, st))"

subsection \<open>When the transport settles\<close>

text \<open>
  The transport of a pending request rejects (a network failure), or it delivers a
  response whose body cannot be read as the wanted type (the promise of
  \<open>response.json()\<close> rejects), or it delivers a body.
\<close>

datatype outcome = Rejected | BodyRejected | Fulfilled response

text \<open>
  The second \<open>then\<close> looks in the \<open>data\<close> argument for the routing keys, in this
  order, and writes the response into the regions each names; only a plain object has
  such keys.
\<close>

definition directive :: "payload \<Rightarrow> string \<Rightarrow> string option" where
  "directive data k =
     (case data of
        ObjectPayload ob \<Rightarrow>
          (case obj_get k ob of JStr sel \<Rightarrow> if sel \<noteq> [] then Some sel else None | _ \<Rightarrow> None)
      | _ \<Rightarrow> None)"

fun route :: "env \<Rightarrow> payload \<Rightarrow> response \<Rightarrow> string list \<Rightarrow> bool \<times> event list" where
  "route env data r [] = (False, [])"
| "route env data r (k # ks) =
     (case directive data k of
        None \<Rightarrow> route env data r ks
      | Some sel \<Rightarrow>
          if routing_throws env k sel r then (True, [])
          else (fst (route env data r ks), Inserted k sel # snd (route env data r ks)))"

text \<open>
  The closure of \<open>formSubmit\<close> writes the response into every notification region;
  \<open>response.message\<close> raises when the response is \<open>null\<close>.
\<close>

fun notify :: "response option \<Rightarrow> nat \<Rightarrow> string list \<Rightarrow> state \<Rightarrow> error option \<times> state" where
  "notify response i [] st = (None, st)"
| "notify response i (mode # modes) st =
     (if mode = ''response_json'' then
        (if response = None then (Some TypeError, st)
         else notify response (Suc i) modes (emit [Notified i True] st))
      else notify response (Suc i) modes (emit [Notified i False] st))"

text \<open>
  The closure of a request step of \<open>chain\<close> begins with
  \<open>if (typeof callback === 'function') { try { callback(response) } catch ... }\<close>.
\<close>

definition local_callback :: "env \<Rightarrow> jsval \<Rightarrow> nat \<Rightarrow> response option \<Rightarrow> state \<Rightarrow> state" where
  "local_callback env stepCallback left response st =
     (case stepCallback of
        JFun c \<Rightarrow> guarded env c response (Step left (CalledCallback c response)) st
      | _ \<Rightarrow> st)"

text \<open>The call \<open>callbackSuccess(response)\<close>, by the closure that is called.\<close>

definition call_callbackSuccess ::
  "env \<Rightarrow> callbackSuccess \<Rightarrow> response option \<Rightarrow> state \<Rightarrow> error option \<times> state" where
  "call_callbackSuccess env cb response st =
     (case cb of
        NoCallback \<Rightarrow> (None, st)
      | UserCallback f \<Rightarrow>
          (if throws env f response then Some UserException else None,
           emit [CallbackSuccessCalled f response] st)
      | ChainCallback stepCallback chainData finalCallback \<Rightarrow>
          chain env (RawArray chainData) finalCallback
            (local_callback env stepCallback (length chainData) response
               (emit [Step (length chainData) (ResponseArrived response)] st))
      | FormCallback formNode formCallback \<Rightarrow>
          (case fazeRestapiForm formNode of
             None \<Rightarrow> notify response 0 (notifications formNode) st
           | Some s \<Rightarrow>
               (case chain env (if s = [] then RawOther else RawString s) formCallback st of
                  (Some e, st') \<Rightarrow> (Some e, st')
                | (None, st') \<Rightarrow> notify response 0 (notifications formNode) st')))"

text \<open>
  \<open>if (typeof callbackSuccess === 'function') { try { callbackSuccess(x) } catch ... }\<close>,
  as both the second \<open>then\<close> and the \<open>catch\<close> of \<open>request\<close> have it.
\<close>

definition caught :: "error option \<times> state \<Rightarrow> state" where
  "caught res = (case fst res of None \<Rightarrow> snd res | Some e \<Rightarrow> emit [ConsoleError] (snd res))"

definition deliver :: "env \<Rightarrow> callbackSuccess \<Rightarrow> response option \<Rightarrow> state \<Rightarrow> state" where
  "deliver env cb response st =
     (if cb = NoCallback then st else caught (call_callbackSuccess env cb response st))"

definition on_catch :: "env \<Rightarrow> pendingRequest \<Rightarrow> state \<Rightarrow> state" where
  "on_catch env p st = deliver env (pending_callback p) None (emit [ConsoleError] st)"

definition settle :: "env \<Rightarrow> nat \<Rightarrow> outcome \<Rightarrow> state \<Rightarrow> state" where
  "settle env i out st =
     (case map_of (pending st) i of
        None \<Rightarrow> st
      | Some p \<Rightarrow>
          (let st1 = st\<lparr>pending := filter (\<lambda>q. fst q \<noteq> i) (pending st)\<rparr>
           in case out of
                Rejected \<Rightarrow> on_catch env p st1
              | BodyRejected \<Rightarrow> on_catch env p st1
              | Fulfilled r \<Rightarrow>
                  (case route env (pending_data p) r
                          [''response_html'', ''response_text'', ''response_json''] of
                     (True, es) \<Rightarrow> on_catch env p (emit es st1)
                   | (False, es) \<Rightarrow> deliver env (pending_callback p) (Some r) (emit es st1))))"

subsection \<open>REST.getElementValue and REST.dataAttr\<close>

definition getElementValue :: "element \<Rightarrow> error + string" where
  "getElementValue el =
     (if nodeName el = ''INPUT'' then Inr (element_value el)
      else if contenteditable el then Inr (innerHTML el)
      else if nodeName el = ''SELECT'' then
        (case selected_value el of None \<Rightarrow> Inl TypeError | Some v \<Rightarrow> Inr v)
      else Inr '''')"

text \<open>
  \<open>JSON.parse(JSON.stringify(chain))\<close> on an array of steps: a function becomes
  \<open>null\<close>, an object loses its keys with a function or \<open>undefined\<close> as value.
\<close>

definition json_copy :: "step \<Rightarrow> step" where
  "json_copy s =
     (case s of
        StepFunction f \<Rightarrow> StepNull
      | StepString x \<Rightarrow> StepString x
      | StepObject ob \<Rightarrow>
          StepObject
            (filter (\<lambda>kv. case snd kv of JUndefined \<Rightarrow> False | JFun f \<Rightarrow> False | _ \<Rightarrow> True) ob)
      | StepNull \<Rightarrow> StepNull)"

text \<open>
  \<open>chain[0][element.name] = value\<close>; the module is strict code, where the assignment
  raises on a string.
\<close>

definition set_first :: "string \<Rightarrow> string \<Rightarrow> step list \<Rightarrow> error + step list" where
  "set_first name v steps =
     (case steps of
        StepObject ob # rest \<Rightarrow> Inr (StepObject (obj_set name (JStr v) ob) # rest)
      | StepFunction f # rest \<Rightarrow> Inr steps
      | _ \<Rightarrow> Inl TypeError)"

definition first_delay :: "step list \<Rightarrow> error + jsval" where
  "first_delay steps =
     (case steps of
        StepObject ob # rest \<Rightarrow> Inr (obj_get ''delay'' ob)
      | StepNull # rest \<Rightarrow> Inl TypeError
      | _ \<Rightarrow> Inr JUndefined)"

text \<open>The part of \<open>dataAttr\<close> under \<open>if (chain.length)\<close>.\<close>

definition dataAttr_start ::
  "env \<Rightarrow> element option \<Rightarrow> step list \<Rightarrow> fn option \<Rightarrow> state \<Rightarrow> error option \<times> state" where
  "dataAttr_start env element steps finalCallback st =
     (case (case element of
              None \<Rightarrow> Inr None
            | Some el \<Rightarrow>
                if element_name el = [] then Inr None
                else (case getElementValue el of Inl e \<Rightarrow> Inl e | Inr v \<Rightarrow> Inr (Some v))) of
        Inl e \<Rightarrow> (Some e, st)
      | Inr currentValue \<Rightarrow>
          (case first_delay steps of
             Inl e \<Rightarrow> (Some e, st)
           | Inr delay \<Rightarrow>
               if truthy delay then
                 (case element of
                    None \<Rightarrow> (Some TypeError, st)
                  | Some el \<Rightarrow>
                      (None,
                       st\<lparr>timers := timers st @ [(next_id st, DelayedChain el steps finalCallback)],
                          next_id := Suc (next_id st)\<rparr>))
               else
                 (case (case (element, currentValue) of
                          (Some el, Some v) \<Rightarrow> set_first (element_name el) v steps
                        | _ \<Rightarrow> Inr steps) of
                    Inl e \<Rightarrow> (Some e, st)
                  | Inr steps' \<Rightarrow> chain env (RawArray steps') finalCallback st)))"

text \<open>
  The argument of \<open>dataAttr\<close>: an element, an array, \<open>null\<close> or
  \<open>undefined\<close> (where \<open>object.constructor\<close> raises), or another value.
\<close>

datatype dataAttrObject =
    AnElement element
  | AnArray "step list"
  | NullOrUndefined
  | AnotherValue

definition dataAttr :: "env \<Rightarrow> dataAttrObject \<Rightarrow> fn option \<Rightarrow> state \<Rightarrow> error option \<times> state" where
  "dataAttr env object finalCallback st =
     (case (case object of
              AnElement el \<Rightarrow>
                (case fazeRestapiAttr el of
                   None \<Rightarrow> Inl NoDataAttribute
                 | Some json \<Rightarrow>
                     (case json_parse env json of
                        ParsedArray steps \<Rightarrow> Inr (Some el, steps)
                      | ParsedLengthZero \<Rightarrow> Inl NotAnArray
                      | ParsedNull \<Rightarrow> Inl TypeError
                      | ParsedOther \<Rightarrow> Inl NotAnArray
                      | ParseError \<Rightarrow> Inl BadJSON))
            | AnArray steps \<Rightarrow> Inr (None, map json_copy steps)
            | NullOrUndefined \<Rightarrow> Inl TypeError
            | AnotherValue \<Rightarrow> Inl NotElementNorArray) of
        Inl e \<Rightarrow> (Some e, st)
      | Inr (element, steps) \<Rightarrow>
          if length steps \<noteq> 0 then dataAttr_start env element steps finalCallback st
          else (None, st))"

text \<open>
  The timer of \<open>dataAttr\<close> fires: the value of the element is read again (it comes with
  the firing) and the chain starts. An exception there is reported by the platform, not by
  the code.
\<close>

definition fire :: "env \<Rightarrow> nat \<Rightarrow> string \<Rightarrow> state \<Rightarrow> state" where
  "fire env i newValue st =
     (case map_of (timers st) i of
        None \<Rightarrow> st
      | Some (DelayedChain el steps finalCallback) \<Rightarrow>
          (let st1 = st\<lparr>timers := filter (\<lambda>q. fst q \<noteq> i) (timers st)\<rparr>
           in case (if element_name el = [] then Inr steps
                    else set_first (element_name el) newValue steps) of
                Inl e \<Rightarrow> st1
              | Inr steps' \<Rightarrow> snd (chain env (RawArray steps') finalCallback st1)))"

subsection \<open>The event loop\<close>

text \<open>
  After a call from the page has returned, the platform runs one handler at a time, in
  any order it likes: the transport of a pending request settles, or a timer fires.
\<close>

datatype action = Settle nat outcome | Fire nat string

definition perform :: "env \<Rightarrow> state \<Rightarrow> action \<Rightarrow> state" where
  "perform env st a = (case a of Settle i out \<Rightarrow> settle env i out st | Fire i v \<Rightarrow> fire env i v st)"

definition run :: "env \<Rightarrow> action list \<Rightarrow> state \<Rightarrow> state" where
  "run env acts st = foldl (perform env) st acts"

subsection \<open>REST.formSubmit\<close>

text \<open>
  \<open>Faze.Helpers.objectFromString\<close> and \<open>Helpers.mergeDeep\<close> are not among the
  sources; together with \<open>JSON.stringify\<close> and \<open>JSON.parse\<close> (on the text of
  \<open>data-faze-restapi-json-merge\<close>, \<open>None\<close> when it raises) they are parameters,
  over any type \<open>'j\<close> of assembled objects. With them comes what the code asks of
  the platform in \<open>if (formData.delete)\<close>: whether its \<open>FormData\<close> has the
  method \<open>delete\<close>.
\<close>

record 'j helpers =
  objectFromString :: "'j \<Rightarrow> string \<Rightarrow> string \<Rightarrow> string \<Rightarrow> 'j"
  mergeDeep :: "'j option \<Rightarrow> 'j \<Rightarrow> 'j"
  emptyObject :: "'j"
  json_stringify :: "'j \<Rightarrow> string"
  json_parse_object :: "string \<Rightarrow> 'j option"
  formData_has_delete :: bool

text \<open>\<open>[...new Set(xs)]\<close>: the elements in the order of their first occurrence.\<close>

definition uniq :: "'a list \<Rightarrow> 'a list" where
  "uniq xs = foldl (\<lambda>acc x. if x \<in> set acc then acc else acc @ [x]) [] xs"

definition jsonNames :: "form \<Rightarrow> string list" where
  "jsonNames formNode =
     uniq (map (\<lambda>item. if includes_dot (fazeRestapiJsonName item)
                        then before_dot (fazeRestapiJsonName item)
                        else fazeRestapiJsonName item)
            (jsonFields formNode))"

text \<open>The test of the \<open>filter\<close> that picks the inputs of the object \<open>jsonName\<close>.\<close>

definition in_group :: "string \<Rightarrow> field \<Rightarrow> bool" where
  "in_group jsonName inputNode =
     (if includes_dot (fazeRestapiJsonName inputNode)
      then startsWith (fazeRestapiJsonName inputNode) (jsonName @ ''.'')
      else startsWith (fazeRestapiJsonName inputNode) jsonName)"

definition inputsNodes :: "form \<Rightarrow> string \<Rightarrow> field list" where
  "inputsNodes formNode jsonName = filter (in_group jsonName) (jsonFields formNode)"

definition isCheckboxOrRadio :: "field \<Rightarrow> bool" where
  "isCheckboxOrRadio itemNode = (field_type itemNode \<in> set [''radio'', ''checkbox''])"

definition or_else :: "string option \<Rightarrow> string \<Rightarrow> string" where
  "or_else a b = (case a of None \<Rightarrow> b | Some s \<Rightarrow> if s = [] then b else s)"

definition formData_delete :: "string \<Rightarrow> entries \<Rightarrow> entries" where
  "formData_delete name formData = filter (\<lambda>kv. fst kv \<noteq> name) formData"

text \<open>
  The body of \<open>inputsNodes.forEach\<close>, on the object under assembly and the outgoing
  \<open>FormData\<close>.
\<close>

definition process_item :: "'j helpers \<Rightarrow> 'j \<times> entries \<Rightarrow> field \<Rightarrow> 'j \<times> entries" where
  "process_item h acc itemNode =
     ((if \<not> isCheckboxOrRadio itemNode \<or> (isCheckboxOrRadio itemNode \<and> checked itemNode)
       then objectFromString h (fst acc)
              (if includes_dot (fazeRestapiJsonName itemNode)
               then after_dot (fazeRestapiJsonName itemNode) else '''')
              (or_else (fazeRestapiJsonKey itemNode) (field_name itemNode))
              (or_else (fazeRestapiJsonValue itemNode) (field_value itemNode))
       else fst acc),
      (if formData_has_delete h then formData_delete (field_name itemNode) (snd acc)
       else snd acc))"

text \<open>One round of the loop over the object names.\<close>

definition assemble :: "'j helpers \<Rightarrow> form \<Rightarrow> entries \<Rightarrow> string \<Rightarrow> entries" where
  "assemble h formNode formData jsonName =
     (let built = foldl (process_item h) (emptyObject h, formData) (inputsNodes formNode jsonName);
          jsonObject =
            (case fazeRestapiJsonMerge formNode of
               None \<Rightarrow> fst built
             | Some jsonData \<Rightarrow> mergeDeep h (json_parse_object h jsonData) (fst built))
      in snd built @ [(before_dot jsonName, json_stringify h jsonObject)])"

definition merge_errors :: "'j helpers \<Rightarrow> form \<Rightarrow> event list" where
  "merge_errors h formNode =
     (case fazeRestapiJsonMerge formNode of
        None \<Rightarrow> []
      | Some jsonData \<Rightarrow>
          if json_parse_object h jsonData = None
          then replicate (length (jsonNames formNode)) ConsoleError else [])"

definition typeForResponse :: "form \<Rightarrow> string" where
  "typeForResponse formNode =
     (case notifications formNode of
        [] \<Rightarrow> ''text''
      | mode # others \<Rightarrow> if mode = ''response_json'' then ''json'' else ''text'')"

datatype formArgument = AForm form | NotAFormElement

definition formSubmit ::
  "'j helpers \<Rightarrow> env \<Rightarrow> formArgument \<Rightarrow> fn option \<Rightarrow> state \<Rightarrow> error option \<times> state" where
  "formSubmit h env arg cb st =
     (case arg of
        NotAFormElement \<Rightarrow> (Some NotAForm, st)
      | AForm formNode \<Rightarrow>
          request env ''POST'' (JStr (typeForResponse formNode))
            (or_else (form_action formNode) (location_href env))
            (FormDataPayload
               (foldl (assemble h formNode) (form_data formNode) (jsonNames formNode) @
                [(''from'', location_href env)]))
            (FormCallback formNode cb)
            (emit (merge_errors h formNode) st))"

subsection \<open>An environment for examples\<close>

text \<open>
  A query string for names and values that need no escaping, and a page where the global
  name \<open>refresh\<close> is the function 9, no user function raises, the text \<open>[]\<close> parses
  to the empty array and nothing else parses.
\<close>

fun plain_query :: "entries \<Rightarrow> string" where
  "plain_query [] = []"
| "plain_query [kv] = fst kv @ ''='' @ snd kv"
| "plain_query (kv # kv' # es) = fst kv @ ''='' @ snd kv @ ''&'' @ plain_query (kv' # es)"

definition example_env :: env where
  "example_env =
     \<lparr>window_function = (\<lambda>name. if name = ''refresh'' then Some 9 else None),
      throws = (\<lambda>f x. False),
      function_toString = (\<lambda>f. ''function () {}''),
      number_toString = (\<lambda>n. ''0''),
      urlSearchParams = plain_query,
      json_parse = (\<lambda>s. if s = ''[]'' then ParsedArray [] else ParseError),
      location_pathname = ''/page'',
      location_href = ''http://host/page'',
      routing_throws = (\<lambda>k sel r. False)\<rparr>"

text \<open>
  Stand-ins for the helpers of \<open>formSubmit\<close>: the assembled object is the list of the
  calls of \<open>objectFromString\<close> that built it.
\<close>

definition example_helpers :: "(string \<times> string \<times> string) list helpers" where
  "example_helpers =
     \<lparr>objectFromString = (\<lambda>ob path k v. ob @ [(path, k, v)]),
      mergeDeep = (\<lambda>a b. b),
      emptyObject = [],
      json_stringify = (\<lambda>ob. concat (map (\<lambda>t. fst t @ '':'' @ fst (snd t) @ ''='' @ snd (snd t) @ '';'') ob)),
      json_parse_object = (\<lambda>s. None),
      formData_has_delete = True\<rparr>"

text \<open>
  A form for examples: a text input tagged \<open>user.name\<close>, a text input tagged
  \<open>userx\<close>, an unchecked checkbox tagged \<open>user.agree\<close> (a hidden input of the same
  name supplies \<open>off\<close>), a checked checkbox tagged \<open>user.news\<close>, and an untagged
  input \<open>city\<close>.
\<close>

definition tagged :: "string \<Rightarrow> string \<Rightarrow> bool \<Rightarrow> string \<Rightarrow> string \<Rightarrow> field" where
  "tagged path ty chk name v =
     \<lparr>fazeRestapiJsonName = path, field_type = ty, checked = chk, field_name = name,
      field_value = v, fazeRestapiJsonKey = None, fazeRestapiJsonValue = None\<rparr>"

definition example_form :: "string list \<Rightarrow> form" where
  "example_form modes =
     \<lparr>form_data = [(''n'', ''max''), (''x'', ''v''), (''agree'', ''off''), (''news'', ''on''),
                  (''city'', ''c'')],
      jsonFields =
        [tagged ''user.name'' ''text'' False ''n'' ''max'',
         tagged ''userx'' ''text'' False ''x'' ''v'',
         tagged ''user.agree'' ''checkbox'' False ''agree'' ''on'',
         tagged ''user.news'' ''checkbox'' True ''news'' ''on''],
      form_action = Some ''/save'',
      notifications = modes,
      fazeRestapiForm = None,
      fazeRestapiJsonMerge = None\<rparr>"

subsection \<open>Reading a trace and an assembled form\<close>

text \<open>The calls of \<open>fetch\<close> in a trace, in order.\<close>

definition fetches :: "event list \<Rightarrow> fetchCall list" where
  "fetches tr = concat (map (\<lambda>e. case e of Fetch i c \<Rightarrow> [c] | _ \<Rightarrow> []) tr)"

text \<open>
  What a tagged field adds to the object under assembly when it adds something, and the
  \<open>FormData\<close> that \<open>formSubmit\<close> hands to \<open>request\<close>.
\<close>

definition add_field :: "'j helpers \<Rightarrow> 'j \<Rightarrow> field \<Rightarrow> 'j" where
  "add_field h jsonObject itemNode =
     objectFromString h jsonObject
       (if includes_dot (fazeRestapiJsonName itemNode)
        then after_dot (fazeRestapiJsonName itemNode) else '''')
       (or_else (fazeRestapiJsonKey itemNode) (field_name itemNode))
       (or_else (fazeRestapiJsonValue itemNode) (field_value itemNode))"


text \<open>A field that is not a checkbox or radio button, or is a checked one.\<close>

definition contributes :: "field \<Rightarrow> bool" where
  "contributes itemNode = (\<not> isCheckboxOrRadio itemNode \<or> checked itemNode)"

text \<open>
  The object that the fields tagged for \<open>jsonName\<close> build, one call of
  \<open>objectFromString\<close> for each field that contributes, in document order; and the text
  that stands for it in the outgoing data, after the merge with the form's fragment.
\<close>

definition assembled_object :: "'j helpers \<Rightarrow> form \<Rightarrow> string \<Rightarrow> 'j" where
  "assembled_object h formNode jsonName =
     foldl (add_field h) (emptyObject h) (filter contributes (inputsNodes formNode jsonName))"

definition sent_object :: "'j helpers \<Rightarrow> form \<Rightarrow> string \<Rightarrow> string" where
  "sent_object h formNode jsonName =
     json_stringify h
       (case fazeRestapiJsonMerge formNode of
          None \<Rightarrow> assembled_object h formNode jsonName
        | Some jsonData \<Rightarrow>
            mergeDeep h (json_parse_object h jsonData) (assembled_object h formNode jsonName))"



subsection \<open>Chains that run to their end\<close>

text \<open>
  A request step is an object without the key \<open>function\<close> and with the key
  \<open>method\<close>. A step lets the chain go on when it is a function value, an object with
  the key \<open>function\<close>, or a request step whose method is a string.
\<close>

definition is_request :: "obj \<Rightarrow> bool" where
  "is_request data = (\<not> has_key ''function'' data \<and> has_key ''method'' data)"


fun request_step :: "step \<Rightarrow> bool" where
  "request_step (StepObject data) = is_request data"
| "request_step s = False"



subsection \<open>The order of the steps in a trace\<close>

text \<open>
  An event that belongs to a step after the one with \<open>left\<close> steps still to come, or
  the call of the final callback; the step numbers of a trace; and a stretch of the trace
  in which the response of the request step with \<open>left\<close> steps to come has arrived and
  its own callback, when it is a function, has been called with it.
\<close>

definition later_than :: "nat \<Rightarrow> event \<Rightarrow> bool" where
  "later_than left e =
     (case e of Step t x \<Rightarrow> t < left | FinalCallbackCalled f \<Rightarrow> True | _ \<Rightarrow> False)"

definition step_numbers :: "event list \<Rightarrow> nat list" where
  "step_numbers tr = concat (map (\<lambda>e. case e of Step t x \<Rightarrow> [t] | _ \<Rightarrow> []) tr)"

definition callback_events :: "jsval \<Rightarrow> nat \<Rightarrow> response option \<Rightarrow> event list" where
  "callback_events stepCallback left response =
     (case stepCallback of JFun c \<Rightarrow> [Step left (CalledCallback c response)] | _ \<Rightarrow> [])"

definition answered :: "nat \<Rightarrow> jsval \<Rightarrow> event list \<Rightarrow> bool" where
  "answered left stepCallback tr =
     (\<exists>response p1 p2.
        tr = p1 @ Step left (ResponseArrived response) #
               callback_events stepCallback left response @ p2)"

text \<open>An event that belongs to no step of a chain and is not the final callback.\<close>

definition quiet :: "event \<Rightarrow> bool" where
  "quiet e = (case e of Step t x \<Rightarrow> False | FinalCallbackCalled f \<Rightarrow> False | _ \<Rightarrow> True)"

text \<open>
  Reading a trace from the left: until the response of the request step with \<open>left\<close>
  steps to come has arrived and its own callback has been called with it, no event of a
  later step and no final callback occurs.
\<close>

fun waits_for :: "nat \<Rightarrow> jsval \<Rightarrow> event list \<Rightarrow> bool" where
  "waits_for left stepCallback [] = True"
| "waits_for left stepCallback (e # es) =
     ((case e of
         Step t (ResponseArrived response) \<Rightarrow>
           t = left \<and>
           take (length (callback_events stepCallback left response)) es =
             callback_events stepCallback left response
       | _ \<Rightarrow> False) \<or>
      (\<not> later_than left e \<and> waits_for left stepCallback es))"

text \<open>
  The events of a run of a chain are in the order of its steps: the step numbers are
  those of the chain and never go up, and the trace waits for each request step.
\<close>

definition in_order :: "step list \<Rightarrow> event list \<Rightarrow> bool" where
  "in_order steps tr \<longleftrightarrow>
     (\<forall>t \<in> set (step_numbers tr). t < length steps) \<and>
     sorted_wrt (\<lambda>a b. b \<le> a) (step_numbers tr) \<and>
     (\<forall>i data. i < length steps \<and> steps ! i = StepObject data \<and> is_request data \<longrightarrow>
        waits_for (length steps - Suc i) (obj_get ''callback'' data) tr)"

section \<open>Properties of the Observer\<close>

subsection \<open>One listener and one node\<close>

lemma advance_refl: "advance n False l l"
  by (simp add: advance_def)

lemma advance_trans:
  "advance n m1 l l' \<Longrightarrow> advance n m2 l' l'' \<Longrightarrow> advance n (m1 \<or> m2) l l''"
  by (auto simp: advance_def)

lemma advance_check_inserted: "advance n (n \<in> set es) l (check_inserted es l)"
proof (induction es arbitrary: l)
  case Nil
  show ?case by (simp add: advance_def)
next
  case (Cons e es)
  show ?case
  proof (cases "e \<notin> set (alreadyExistedNodes l) \<and> callback l \<noteq> NotFunction")
    case True
    then obtain f where f: "callback l = Function f" by (cases "callback l") auto
    let ?l1 = "l\<lparr>alreadyExistedNodes := alreadyExistedNodes l @ [e], fired := fired l @ [e]\<rparr>"
    have step: "advance n (n = e) l ?l1"
      using True f by (auto simp: advance_def times_fired_def)
    have "check_inserted (e # es) l = check_inserted es ?l1" using True f by simp
    moreover have "advance n (n = e \<or> n \<in> set es) l (check_inserted es ?l1)"
      by (rule advance_trans [OF step Cons.IH])
    ultimately show ?thesis by (simp add: disj_commute eq_commute)
  next
    case False
    then have eq: "check_inserted (e # es) l = check_inserted es l"
      by (cases "callback l") auto
    have "advance n (n \<in> set es) l (check_inserted es l)" by (rule Cons.IH)
    then show ?thesis using False unfolding eq
      by (auto simp: advance_def)
  qed
qed

lemma foldl_evict:
  "foldl (\<lambda>cur existed. if existed = r then filter (\<lambda>n. n \<noteq> existed) cur else cur) cur xs =
     (if r \<in> set xs then filter (\<lambda>n. n \<noteq> r) cur else cur)"
  by (induction xs arbitrary: cur) auto

lemma check_removed_eq:
  "check_removed r l = l\<lparr>alreadyExistedNodes := filter (\<lambda>n. n \<noteq> r) (alreadyExistedNodes l)\<rparr>"
proof -
  have "filter (\<lambda>n. n \<noteq> r) (alreadyExistedNodes l) = alreadyExistedNodes l"
    if "r \<notin> set (alreadyExistedNodes l)"
    using that by (auto simp: filter_id_conv)
  then show ?thesis
    by (auto simp: check_removed_def foldl_evict)
qed

lemma advance_check_removed: "r \<noteq> n \<Longrightarrow> advance n False l (check_removed r l)"
  by (simp add: check_removed_eq advance_def times_fired_def)

lemma advance_check_added: "advance n (hit d (selector l) n a) l (check_added d a l)"
proof (cases "parentNode d a")
  case None
  then show ?thesis by (simp add: check_added_def hit_def advance_def)
next
  case (Some p)
  then show ?thesis
    using advance_check_inserted [of n "querySelectorAll d p (selector l)" l]
    by (simp add: check_added_def hit_def)
qed

lemma advance_selector: "advance n m l l' \<Longrightarrow> selector l' = selector l"
  by (simp add: advance_def)

lemma advance_added_fold:
  "advance n (\<exists>a \<in> set as. hit d (selector l) n a) l (foldl (\<lambda>l' a. check_added d a l') l as)"
proof (induction as arbitrary: l)
  case Nil
  show ?case by (simp add: advance_refl)
next
  case (Cons a as)
  have s1: "advance n (hit d (selector l) n a) l (check_added d a l)"
    by (rule advance_check_added)
  have sel: "selector (check_added d a l) = selector l"
    by (rule advance_selector [OF s1])
  have s2: "advance n (\<exists>a \<in> set as. hit d (selector l) n a) (check_added d a l)
              (foldl (\<lambda>l' a. check_added d a l') (check_added d a l) as)"
    using Cons.IH [of "check_added d a l"] by (simp add: sel)
  show ?case using advance_trans [OF s1 s2] by simp
qed

lemma advance_removed_fold:
  "n \<notin> set rs \<Longrightarrow> advance n False l (foldl (\<lambda>l' x. check_removed x l') l rs)"
proof (induction rs arbitrary: l)
  case Nil
  show ?case by (simp add: advance_refl)
next
  case (Cons r rs)
  have s1: "advance n False l (check_removed r l)"
    using Cons.prems by (simp add: advance_check_removed)
  have s2: "advance n False (check_removed r l) (foldl (\<lambda>l' x. check_removed x l') (check_removed r l) rs)"
    using Cons.prems Cons.IH by simp
  show ?case using advance_trans [OF s1 s2] by simp
qed

lemma advance_check_record:
  assumes "n \<notin> set (removedNodes r)"
  shows "advance n (\<exists>a \<in> set (addedNodes r). hit d (selector l) n a) l (check_record d r l)"
  using advance_trans [OF advance_added_fold advance_removed_fold [OF assms]]
  by (simp add: check_record_def)

lemma advance_check_listener:
  assumes "\<forall>r \<in> set rs. n \<notin> set (removedNodes r)"
  shows "advance n (\<exists>r \<in> set rs. \<exists>a \<in> set (addedNodes r). hit d (selector l) n a) l
           (check_listener d rs l)"
  using assms
proof (induction rs arbitrary: l)
  case Nil
  show ?case by (simp add: check_listener_def advance_refl)
next
  case (Cons r rs)
  have s1: "advance n (\<exists>a \<in> set (addedNodes r). hit d (selector l) n a) l (check_record d r l)"
    using Cons.prems by (simp add: advance_check_record)
  have sel: "selector (check_record d r l) = selector l"
    by (rule advance_selector [OF s1])
  have s2: "advance n (\<exists>r \<in> set rs. \<exists>a \<in> set (addedNodes r). hit d (selector l) n a)
              (check_record d r l) (check_listener d rs (check_record d r l))"
    using Cons.IH [of "check_record d r l"] Cons.prems by (simp add: sel)
  show ?case using advance_trans [OF s1 s2] by (simp add: check_listener_def)
qed

lemma advance_listener_run:
  assumes "never_removed n bs"
  shows "advance n (mentioned (selector l) n bs) l (listener_run bs l)"
  using assms
proof (induction bs arbitrary: l)
  case Nil
  show ?case by (simp add: listener_run_def mentioned_def advance_refl)
next
  case (Cons b bs)
  have nr: "\<forall>r \<in> set (snd b). n \<notin> set (removedNodes r)" and nr': "never_removed n bs"
    using Cons.prems by (simp_all add: never_removed_def)
  have s1: "advance n (\<exists>r \<in> set (snd b). \<exists>a \<in> set (addedNodes r). hit (fst b) (selector l) n a) l
              (check_listener (fst b) (snd b) l)"
    by (rule advance_check_listener [OF nr])
  have sel: "selector (check_listener (fst b) (snd b) l) = selector l"
    by (rule advance_selector [OF s1])
  have s2: "advance n (mentioned (selector l) n bs) (check_listener (fst b) (snd b) l)
              (listener_run bs (check_listener (fst b) (snd b) l))"
    using Cons.IH [OF nr', of "check_listener (fst b) (snd b) l"] by (simp add: sel)
  show ?case using advance_trans [OF s1 s2]
    by (simp add: listener_run_def mentioned_def hit_def)
qed

lemma deliveries_nth:
  "i < length ob \<Longrightarrow> length (deliveries bs ob) = length ob \<and> deliveries bs ob ! i = listener_run bs (ob ! i)"
proof (induction bs arbitrary: ob)
  case Nil
  show ?case by (simp add: deliveries_def listener_run_def)
next
  case (Cons b bs)
  obtain d rs where b: "b = (d, rs)" by (cases b)
  have "deliveries (b # bs) ob = deliveries bs (check d rs ob)"
    by (simp add: deliveries_def b)
  moreover have "listener_run (b # bs) (ob ! i) = listener_run bs (check_listener d rs (ob ! i))"
    by (simp add: listener_run_def b)
  moreover have "i < length (check d rs ob)" "check d rs ob ! i = check_listener d rs (ob ! i)"
    using Cons.prems by (simp_all add: check_def)
  ultimately show ?case using Cons.IH [of "check d rs ob"] by (simp add: check_def)
qed

text \<open>
  Claim C1, as amended. For a listener registered by \<open>watch\<close> and a node \<open>n\<close>
  that no processed mutation record reports as removed: the callback is called at most
  once with \<open>n\<close> over all batches; it is never called with \<open>n\<close> when the selector
  found \<open>n\<close> at registration; and when \<open>n\<close> was not there at registration, the
  callback is a function and some added node's parent has \<open>n\<close> among its selected
  nodes, it is called exactly once, however many batches mention \<open>n\<close>.
\<close>

theorem callback_once_unless_removed:
  assumes "never_removed n bs"
  shows "times_fired (deliveries bs (watch d0 sel cb ob) ! length ob) n \<le> 1 \<and>
     (n \<in> set (document_querySelectorAll d0 sel) \<longrightarrow>
        times_fired (deliveries bs (watch d0 sel cb ob) ! length ob) n = 0) \<and>
     (n \<notin> set (document_querySelectorAll d0 sel) \<and> cb \<noteq> NotFunction \<and> mentioned sel n bs \<longrightarrow>
        times_fired (deliveries bs (watch d0 sel cb ob) ! length ob) n = 1)"
proof -
  let ?l0 = "\<lparr>selector = sel, callback = cb,
               alreadyExistedNodes = document_querySelectorAll d0 sel, fired = []\<rparr>"
  have "deliveries bs (watch d0 sel cb ob) ! length ob = listener_run bs (watch d0 sel cb ob ! length ob)"
    using deliveries_nth [of "length ob" "watch d0 sel cb ob" bs] by (simp add: watch_def)
  then have eq: "deliveries bs (watch d0 sel cb ob) ! length ob = listener_run bs ?l0"
    by (simp add: watch_def)
  have adv: "advance n (mentioned sel n bs) ?l0 (listener_run bs ?l0)"
    using advance_listener_run [OF assms, of ?l0] by simp
  have t0: "times_fired ?l0 n = 0" by (simp add: times_fired_def)
  show ?thesis unfolding eq using adv t0 by (auto simp: advance_def)
qed

text \<open>
  The theorem at a concrete page: node 5 is there at registration, node 7 is inserted
  under node 1 afterwards and is found again when node 8 is inserted beside it.
\<close>

theorem callback_once_unless_removed_witness:
  "never_removed 7
     [(example_document ''.tip'' [5] [(7, 1)] [(1, [5, 7])], [\<lparr>addedNodes = [7], removedNodes = []\<rparr>]),
      (example_document ''.tip'' [5] [(7, 1), (8, 1)] [(1, [5, 7, 8])],
       [\<lparr>addedNodes = [8], removedNodes = []\<rparr>])] \<and>
   mentioned ''.tip'' 7
     [(example_document ''.tip'' [5] [(7, 1)] [(1, [5, 7])], [\<lparr>addedNodes = [7], removedNodes = []\<rparr>]),
      (example_document ''.tip'' [5] [(7, 1), (8, 1)] [(1, [5, 7, 8])],
       [\<lparr>addedNodes = [8], removedNodes = []\<rparr>])] \<and>
   times_fired
     (deliveries
        [(example_document ''.tip'' [5] [(7, 1)] [(1, [5, 7])], [\<lparr>addedNodes = [7], removedNodes = []\<rparr>]),
         (example_document ''.tip'' [5] [(7, 1), (8, 1)] [(1, [5, 7, 8])],
          [\<lparr>addedNodes = [8], removedNodes = []\<rparr>])]
        (watch (example_document ''.tip'' [5] [] []) ''.tip'' (Function 0) []) ! length ([] :: observer))
     7 = 1 \<and>
   never_removed 5
     [(example_document ''.tip'' [5] [(7, 1)] [(1, [5, 7])], [\<lparr>addedNodes = [7], removedNodes = []\<rparr>])] \<and>
   times_fired
     (deliveries
        [(example_document ''.tip'' [5] [(7, 1)] [(1, [5, 7])], [\<lparr>addedNodes = [7], removedNodes = []\<rparr>])]
        (watch (example_document ''.tip'' [5] [] []) ''.tip'' (Function 0) []) ! length ([] :: observer))
     5 = 0"
proof -
  let ?b1 = "(example_document ''.tip'' [5] [(7, 1)] [(1, [5, 7])], [\<lparr>addedNodes = [7], removedNodes = []\<rparr>])"
  let ?b2 = "(example_document ''.tip'' [5] [(7, 1), (8, 1)] [(1, [5, 7, 8])],
       [\<lparr>addedNodes = [8], removedNodes = []\<rparr>])"
  let ?d0 = "example_document ''.tip'' [5] [] []"
  have nr7: "never_removed 7 [?b1, ?b2]" by (simp add: never_removed_def)
  have nr5: "never_removed 5 [?b1]" by (simp add: never_removed_def)
  have m7: "mentioned ''.tip'' 7 [?b1, ?b2]"
    by (simp add: mentioned_def hit_def example_document_def)
  have new7: "7 \<notin> set (document_querySelectorAll ?d0 ''.tip'')"
    by (simp add: example_document_def)
  have old5: "5 \<in> set (document_querySelectorAll ?d0 ''.tip'')"
    by (simp add: example_document_def)
  show ?thesis
    using nr7 nr5 m7 new7 old5
      callback_once_unless_removed [OF nr7, of ?d0 "''.tip''" "Function 0" "[]"]
      callback_once_unless_removed [OF nr5, of ?d0 "''.tip''" "Function 0" "[]"]
    by simp
qed

text \<open>
  Claim C1 as stated fails: a removed node is evicted from \<open>alreadyExistedNodes\<close>, so
  the same node fires the callback again when it comes back. Node 7 is inserted under
  node 1 after registration (first batch) and then moved under node 2 (second batch: one
  record reports it removed, the next one added): the callback is called twice with it.
\<close>

theorem callback_once_counterexample:
  "times_fired
     (deliveries
        [(example_document ''.tip'' [] [(7, 1)] [(1, [7])], [\<lparr>addedNodes = [7], removedNodes = []\<rparr>]),
         (example_document ''.tip'' [] [(7, 2)] [(2, [7])],
          [\<lparr>addedNodes = [], removedNodes = [7]\<rparr>, \<lparr>addedNodes = [7], removedNodes = []\<rparr>])]
        (watch (example_document ''.tip'' [] [] []) ''.tip'' (Function 0) []) ! 0)
     7 = 2"
  by (simp add: deliveries_def check_def check_listener_def check_record_def check_added_def
      check_removed_def watch_def example_document_def times_fired_def)

section \<open>Properties of REST\<close>

subsection \<open>request, and chain on its simple branches\<close>

text \<open>
  With no pending request and no timer, nothing more ever happens.
\<close>

lemma run_idle: "pending st = [] \<Longrightarrow> timers st = [] \<Longrightarrow> run env acts st = st"
proof (induction acts)
  case Nil
  show ?case by (simp add: run_def)
next
  case (Cons a acts)
  have "perform env st a = st"
    using Cons.prems by (cases a) (simp_all add: perform_def settle_def fire_def)
  then show ?case using Cons by (simp add: run_def)
qed

text \<open>
  Claim C2, as amended. For every payload that \<open>request\<close> accepts, the call returns
  normally and issues exactly one \<open>fetch\<close>. The URL is the given one followed by
  \<open>?\<close> and the whole payload as a query string, whatever the method. A method that
  is \<open>post\<close> in any letter case is sent as \<open>POST\<close> with the payload as body;
  any other method is sent as \<open>GET\<close> with no body.
\<close>

theorem request_get_post:
  assumes "data \<noteq> FalsyPayload"
  shows "fst (request env method type url data cb st) = None \<and>
    fetches (trace (snd (request env method type url data cb st))) =
      fetches (trace st) @
        [if toLowerCase method = ''post''
         then \<lparr>fetch_url = url @ ''?'' @ urlSearchParams env (formData_of env data),
               fetch_method = ''POST'', fetch_body = Some (formData_of env data)\<rparr>
         else \<lparr>fetch_url = url @ ''?'' @ urlSearchParams env (formData_of env data),
               fetch_method = ''GET'', fetch_body = None\<rparr>]"
  using assms by (simp add: request_def Let_def fetches_def)

text \<open>
  The theorem at the payload \<open>{a: '1', b: '2'}\<close>, once with \<open>get\<close> and once with \<open>Post\<close>.
\<close>

theorem request_get_post_witness:
  "ObjectPayload [(''a'', JStr ''1''), (''b'', JStr ''2'')] \<noteq> FalsyPayload \<and>
   fetches (trace (snd (request example_env ''get'' JNull ''/api''
      (ObjectPayload [(''a'', JStr ''1''), (''b'', JStr ''2'')]) NoCallback initial))) =
     [\<lparr>fetch_url = ''/api?a=1&b=2'', fetch_method = ''GET'', fetch_body = None\<rparr>] \<and>
   fetches (trace (snd (request example_env ''Post'' JNull ''/api''
      (ObjectPayload [(''a'', JStr ''1''), (''b'', JStr ''2'')]) NoCallback initial))) =
     [\<lparr>fetch_url = ''/api?a=1&b=2'', fetch_method = ''POST'',
       fetch_body = Some [(''a'', ''1''), (''b'', ''2'')]\<rparr>]"
proof -
  let ?data = "ObjectPayload [(''a'', JStr ''1''), (''b'', JStr ''2'')]"
  have ne: "?data \<noteq> FalsyPayload" by simp
  have fd: "formData_of example_env ?data = [(''a'', ''1''), (''b'', ''2'')]"
    by (simp add: formData_of_def js_string_def)
  have q: "urlSearchParams example_env [(''a'', ''1''), (''b'', ''2'')] = ''a=1&b=2''"
    by (simp add: example_env_def)
  have g: "toLowerCase ''get'' \<noteq> ''post''" and p: "toLowerCase ''Post'' = ''post''"
    by (simp_all add: toLowerCase_def)
  have t0: "fetches (trace initial) = []" by (simp add: initial_def fetches_def)
  show ?thesis
    using request_get_post [OF ne, of example_env "''get''" JNull "''/api''" NoCallback initial]
      request_get_post [OF ne, of example_env "''Post''" JNull "''/api''" NoCallback initial]
    by (simp add: fd q g p t0)
qed

text \<open>
  Claim C2 as stated fails in its second half: the payload of a \<open>POST\<close> is
  appended to the URL as well. The URL of the \<open>fetch\<close> for \<open>/api\<close> with the
  payload \<open>{a: '1', b: '2'}\<close> is \<open>/api?a=1&b=2\<close>.
\<close>

theorem request_post_counterexample:
  "fetch_url (hd (fetches (trace (snd (request example_env ''POST'' JNull ''/api''
      (ObjectPayload [(''a'', JStr ''1''), (''b'', JStr ''2'')]) NoCallback initial))))) =
   ''/api?a=1&b=2''"
  by (simp add: request_def Let_def fetches_def toLowerCase_def formData_of_def js_string_def
      example_env_def initial_def)

text \<open>
  Claim C3. When the head step is a string that names a global function, \<open>chain\<close>
  calls the function inside \<open>try\<close> (an exception is written to the console) and
  returns: started on an idle page, whatever happens afterwards, the trace holds this call
  and nothing of the remaining steps nor the final callback. When the head step is a
  function value, \<open>chain\<close> calls it the same way and then runs \<open>chain\<close> on the
  remaining steps with the same final callback.
\<close>

theorem chain_string_step_stops:
  assumes "window_function env name = Some g"
  shows "chain env (RawArray (StepString name # rest)) fin st =
           (None, guarded env g None (Step (length rest) (CalledGlobal name)) st) \<and>
         (\<forall>acts. trace (run env acts (snd (chain env (RawArray (StepString name # rest)) fin initial))) =
            Step (length rest) (CalledGlobal name) # (if throws env g None then [ConsoleError] else [])) \<and>
         chain env (RawArray (StepFunction f # rest)) fin st =
           chain env (RawArray rest) fin
             (guarded env f None (Step (length rest) (CalledFunction f)) st)"
proof -
  have a: "chain env (RawArray (StepString name # rest)) fin st =
           (None, guarded env g None (Step (length rest) (CalledGlobal name)) st)" for st
    using assms by (simp add: chain_def)
  have idle: "pending (guarded env g None ev initial) = [] \<and> timers (guarded env g None ev initial) = []" for ev
    by (simp add: guarded_def emit_def initial_def)
  have b: "trace (run env acts (snd (chain env (RawArray (StepString name # rest)) fin initial))) =
            Step (length rest) (CalledGlobal name) # (if throws env g None then [ConsoleError] else [])" for acts
    using idle by (simp add: a run_idle) (simp add: guarded_def emit_def initial_def)
  show ?thesis using a b by (simp add: chain_def)
qed

text \<open>
  The theorem on the page of \<open>example_env\<close>: after the string step \<open>refresh\<close>
  neither of the two function steps nor the final callback 3 runs, while the chain of the
  two function steps alone reaches the final callback.
\<close>

theorem chain_string_step_stops_witness:
  "window_function example_env ''refresh'' = Some 9 \<and>
   trace (run example_env [Settle 0 Rejected, Fire 0 ''x'']
     (snd (chain example_env (RawArray [StepString ''refresh'', StepFunction 1, StepFunction 2])
        (Some 3) initial))) = [Step 2 (CalledGlobal ''refresh'')] \<and>
   trace (snd (chain example_env (RawArray [StepFunction 1, StepFunction 2]) (Some 3) initial)) =
     [Step 1 (CalledFunction 1), Step 0 (CalledFunction 2), FinalCallbackCalled 3]"
proof -
  have w: "window_function example_env ''refresh'' = Some 9" by (simp add: example_env_def)
  have t: "\<not> throws example_env f x" for f x by (simp add: example_env_def)
  note th = chain_string_step_stops [OF w, where rest = "[StepFunction 1, StepFunction 2]"
      and fin = "Some 3" and st = initial and f = 1]
  have "trace (run example_env [Settle 0 Rejected, Fire 0 ''x'']
     (snd (chain example_env (RawArray [StepString ''refresh'', StepFunction 1, StepFunction 2])
        (Some 3) initial))) =
     Step (length [StepFunction 1, StepFunction 2]) (CalledGlobal ''refresh'') #
       (if throws example_env 9 None then [ConsoleError] else [])"
    using th by blast
  then have a: "trace (run example_env [Settle 0 Rejected, Fire 0 ''x'']
     (snd (chain example_env (RawArray [StepString ''refresh'', StepFunction 1, StepFunction 2])
        (Some 3) initial))) = [Step 2 (CalledGlobal ''refresh'')]"
    by (simp add: t)
  have b: "trace (snd (chain example_env (RawArray [StepFunction 1, StepFunction 2]) (Some 3) initial)) =
     [Step 1 (CalledFunction 1), Step 0 (CalledFunction 2), FinalCallbackCalled 3]"
    by (simp add: chain_def guarded_def emit_def initial_def t)
  show ?thesis using w a b by simp
qed

text \<open>
  Claim C8. \<open>chain\<close> on an empty array calls the final callback inside
  \<open>try\<close> (an exception is written to the console), runs no step and returns
  normally: the final callback is called exactly once, now and ever after.
\<close>

theorem chain_empty:
  "chain env (RawArray []) (Some f) st =
     (None, emit (FinalCallbackCalled f # (if throws env f None then [ConsoleError] else [])) st) \<and>
   (\<forall>acts. trace (run env acts (snd (chain env (RawArray []) (Some f) initial))) =
      FinalCallbackCalled f # (if throws env f None then [ConsoleError] else [])) \<and>
   (\<forall>acts. count_list (trace (run env acts (snd (chain env (RawArray []) (Some f) initial))))
      (FinalCallbackCalled f) = 1)"
proof -
  have a: "chain env (RawArray []) (Some f) st =
     (None, emit (FinalCallbackCalled f # (if throws env f None then [ConsoleError] else [])) st)" for st
    by (simp add: chain_def guarded_def)
  have idle: "run env acts (emit es initial) = emit es initial" for es acts
    by (rule run_idle) (simp_all add: emit_def initial_def)
  have b: "trace (run env acts (snd (chain env (RawArray []) (Some f) initial))) =
      FinalCallbackCalled f # (if throws env f None then [ConsoleError] else [])" for acts
    unfolding a snd_conv idle by (simp add: emit_def initial_def)
  have c: "count_list (trace (run env acts (snd (chain env (RawArray []) (Some f) initial))))
      (FinalCallbackCalled f) = 1" for acts
    unfolding b by simp
  show ?thesis by (intro conjI allI) (rule a b c)+
qed

text \<open>
  The theorem for the final callback 3 on the page of \<open>example_env\<close>.
\<close>

theorem chain_empty_witness:
  "trace (run example_env [Settle 0 Rejected]
      (snd (chain example_env (RawArray []) (Some 3) initial))) = [FinalCallbackCalled 3]"
proof -
  have t: "\<not> throws example_env f x" for f x by (simp add: example_env_def)
  have "trace (run example_env [Settle 0 Rejected]
      (snd (chain example_env (RawArray []) (Some 3) initial))) =
      FinalCallbackCalled 3 # (if throws example_env 3 None then [ConsoleError] else [])"
    using chain_empty [of example_env 3 initial] by blast
  then show ?thesis by (simp add: t)
qed

text \<open>
  Claim C10. \<open>dataAttr\<close> on an empty array returns without calling \<open>chain\<close>:
  the state is unchanged, nothing is left pending, and the final callback is never called,
  although \<open>chain\<close> on the empty array itself does call it.
\<close>

theorem dataAttr_empty_array:
  "dataAttr env (AnArray []) (Some f) st = (None, st) \<and>
   (\<forall>acts. run env acts (snd (dataAttr env (AnArray []) (Some f) initial)) = initial) \<and>
   FinalCallbackCalled f \<notin> set (trace (snd (dataAttr env (AnArray []) (Some f) initial))) \<and>
   FinalCallbackCalled f \<in> set (trace (snd (chain env (RawArray []) (Some f) initial)))"
proof -
  have a: "dataAttr env (AnArray []) (Some f) st = (None, st)" for st
    by (simp add: dataAttr_def)
  have "run env acts initial = initial" for acts
    by (rule run_idle) (simp_all add: initial_def)
  then show ?thesis
    by (simp add: a) (simp add: chain_def guarded_def emit_def initial_def)
qed

text \<open>
  The theorem for the final callback 3 on the page of \<open>example_env\<close>.
\<close>

theorem dataAttr_empty_array_witness:
  "run example_env [Settle 0 Rejected, Fire 0 ''x'']
     (snd (dataAttr example_env (AnArray []) (Some 3) initial)) = initial \<and>
   trace (snd (chain example_env (RawArray []) (Some 3) initial)) = [FinalCallbackCalled 3]"
proof -
  have t: "\<not> throws example_env f x" for f x by (simp add: example_env_def)
  have a: "trace (snd (chain example_env (RawArray []) (Some 3) initial)) = [FinalCallbackCalled 3]"
    by (simp add: chain_def guarded_def emit_def initial_def t)
  have b: "run example_env [Settle 0 Rejected, Fire 0 ''x'']
     (snd (dataAttr example_env (AnArray []) (Some 3) initial)) = initial"
    using dataAttr_empty_array [of example_env 3 initial] by blast
  show ?thesis using a b by simp
qed

subsection \<open>formSubmit\<close>




lemma startsWith_own_segment:
  assumes "CHR ''.'' \<in> set a"
  shows "startsWith a (before_dot a @ ''.'')"
proof -
  let ?P = "\<lambda>c. c \<noteq> CHR ''.''"
  have ne: "dropWhile ?P a \<noteq> []" using assms by (simp add: dropWhile_eq_Nil_conv)
  then have "hd (dropWhile ?P a) = CHR ''.''" using hd_dropWhile [of ?P a] by simp
  then obtain rest where d: "dropWhile ?P a = CHR ''.'' # rest"
    using ne by (cases "dropWhile ?P a") auto
  have "a = takeWhile ?P a @ CHR ''.'' # rest"
    using takeWhile_dropWhile_id [of ?P a] d by simp
  then have "take (length (takeWhile ?P a @ ''.'')) a = takeWhile ?P a @ ''.''"
    by (metis append.assoc append_Cons append_Nil append_eq_conv_conj)
  then show ?thesis by (simp add: startsWith_def before_dot_def)
qed



text \<open>
  The loop over the inputs of one object name: what it builds and what it deletes.
\<close>

lemma process_item_fst:
  "fst (process_item h acc f) = (if contributes f then add_field h (fst acc) f else fst acc)"
  by (auto simp: process_item_def contributes_def add_field_def)

lemma process_item_snd:
  "snd (process_item h acc f) =
     (if formData_has_delete h then formData_delete (field_name f) (snd acc) else snd acc)"
  by (simp add: process_item_def)

lemma fold_items_fst:
  "fst (foldl (process_item h) acc items) = foldl (add_field h) (fst acc) (filter contributes items)"
  by (induction items arbitrary: acc) (simp_all add: process_item_fst)


lemma fold_items_snd_no_delete:
  assumes "\<not> formData_has_delete h"
  shows "snd (foldl (process_item h) acc items) = snd acc"
  using assms by (induction items arbitrary: acc) (simp_all add: process_item_snd)


lemma assemble_no_delete:
  assumes "\<not> formData_has_delete h"
  shows "assemble h formNode formData jsonName =
     formData @ [(before_dot jsonName, sent_object h formNode jsonName)]"
  by (simp add: assemble_def Let_def fold_items_snd_no_delete [OF assms] fold_items_fst
      sent_object_def assembled_object_def split: option.splits)







text \<open>
  For a path with a dot the test for the group is exact on the first segment.
\<close>

lemma dotted_group_exact:
  assumes "includes_dot (fazeRestapiJsonName f)" and "\<not> includes_dot name"
  shows "in_group name f \<longleftrightarrow> before_dot (fazeRestapiJsonName f) = name"
proof
  let ?P = "\<lambda>c. c \<noteq> CHR ''.''"
  let ?a = "fazeRestapiJsonName f"
  assume "in_group name f"
  then have "take (length (name @ ''.'')) ?a = name @ ''.''"
    using assms(1) by (simp add: in_group_def startsWith_def)
  then have "?a = (name @ ''.'') @ drop (length (name @ ''.'')) ?a"
    by (metis append_take_drop_id)
  then obtain rest where a: "?a = name @ CHR ''.'' # rest" by simp
  have "takeWhile ?P (name @ CHR ''.'' # rest) = name"
    using assms(2) by (auto simp: includes_dot_def takeWhile_tail)
  then show "before_dot ?a = name" by (simp add: before_dot_def a)
next
  assume "before_dot (fazeRestapiJsonName f) = name"
  then show "in_group name f"
    using assms(1) startsWith_own_segment [of "fazeRestapiJsonName f"]
    by (auto simp: in_group_def includes_dot_def)
qed

text \<open>
  Claim C5 at its own example. A path without a dot is tested with
  \<open>startsWith(jsonName)\<close> alone: the field with the path \<open>userx\<close>, whose first
  segment is not \<open>user\<close>, is picked for the object \<open>user\<close>.
\<close>

theorem json_group_prefix_of_word:
  "in_group ''user'' (tagged ''userx'' ''text'' False ''x'' ''v'') \<and>
   before_dot (fazeRestapiJsonName (tagged ''userx'' ''text'' False ''x'' ''v'')) \<noteq> ''user'' \<and>
   inputsNodes (example_form []) ''user'' =
     [tagged ''user.name'' ''text'' False ''n'' ''max'',
      tagged ''userx'' ''text'' False ''x'' ''v'',
      tagged ''user.agree'' ''checkbox'' False ''agree'' ''on'',
      tagged ''user.news'' ''checkbox'' True ''news'' ''on'']"
  by (simp add: in_group_def inputsNodes_def example_form_def tagged_def includes_dot_def
      startsWith_def before_dot_def)

text \<open>
  Claim C4 at a form whose notification region declares the mode \<open>json\<close>: the code
  compares the attribute with \<open>response_json\<close>, so the request is dispatched with the
  response type \<open>text\<close>; only the value \<open>response_json\<close> gives \<open>json\<close>.
\<close>

theorem json_mode_dispatched_as_text:
  "typeForResponse (example_form [''json'']) = ''text'' \<and>
   map (\<lambda>p. pending_dataType (snd p))
     (pending (snd (formSubmit example_helpers example_env (AForm (example_form [''json''])) None
        initial))) = [JStr ''text''] \<and>
   typeForResponse (example_form [''response_json'']) = ''json''"
  by (simp add: typeForResponse_def example_form_def formSubmit_def request_def Let_def
      initial_def emit_def truthy_def)

subsection \<open>Requests that fail, and chains that go on\<close>

text \<open>
  What the small steps do to the fields of the state.
\<close>

lemma emit_fields [simp]:
  "trace (emit es st) = trace st @ es" "pending (emit es st) = pending st"
  "timers (emit es st) = timers st" "next_id (emit es st) = next_id st"
  by (simp_all add: emit_def)

lemma guarded_fields [simp]:
  "pending (guarded env f x ev st) = pending st"
  "timers (guarded env f x ev st) = timers st" "next_id (guarded env f x ev st) = next_id st"
  by (simp_all add: guarded_def)

lemma guarded_trace:
  "trace (guarded env f x ev st) = trace st @ ev # (if throws env f x then [ConsoleError] else [])"
  by (simp add: guarded_def)

lemma local_callback_fields [simp]:
  "pending (local_callback env cb t r st) = pending st"
  "timers (local_callback env cb t r st) = timers st"
  "next_id (local_callback env cb t r st) = next_id st"
  by (simp_all add: local_callback_def split: jsval.splits)

lemma local_callback_trace:
  "\<exists>q. trace (local_callback env cb t r st) = trace st @ callback_events cb t r @ q \<and>
       list_all quiet q"
  by (cases cb) (simp_all add: local_callback_def callback_events_def guarded_trace quiet_def)

lemma route_quiet: "list_all quiet (snd (route env data r ks))"
  by (induction ks) (simp_all add: quiet_def split: option.splits)

text \<open>
  The shape of the state after \<open>request\<close>, and after \<open>chain\<close> has reached a request step.
\<close>

lemma request_eq:
  assumes "data \<noteq> FalsyPayload"
  shows "\<exists>fc dt. request env m ty url data cb st =
    (None, st\<lparr>trace := trace st @ [Fetch (next_id st) fc],
              pending := pending st @
                [(next_id st, \<lparr>pending_dataType = dt, pending_data = data, pending_callback = cb\<rparr>)],
              next_id := Suc (next_id st)\<rparr>)"
  unfolding request_def Let_def using assms by (simp only: if_False) blast

lemma chain_array_request:
  assumes "is_request data" and "obj_get ''method'' data = JStr m"
  shows "\<exists>fc dt pl. chain_array env (StepObject data # rest) fin st =
    (None, st\<lparr>trace := trace st @ [Step (length rest) (Requested (next_id st)), Fetch (next_id st) fc],
              pending := pending st @
                [(next_id st, \<lparr>pending_dataType = dt, pending_data = ObjectPayload pl,
                    pending_callback = ChainCallback (obj_get ''callback'' data) rest fin\<rparr>)],
              next_id := Suc (next_id st)\<rparr>)"
proof -
  let ?pl = "strip_control (with_method_fields env m (with_show data))"
  let ?st = "emit [Step (length rest) (Requested (next_id st))] st"
  obtain fc dt where
    "request env m (if truthy (obj_get ''type'' data) then obj_get ''type'' data else JNull)
       (step_url env data) (ObjectPayload ?pl)
       (ChainCallback (obj_get ''callback'' data) rest fin) ?st =
     (None, ?st\<lparr>trace := trace ?st @ [Fetch (next_id ?st) fc],
              pending := pending ?st @
                [(next_id ?st, \<lparr>pending_dataType = dt, pending_data = ObjectPayload ?pl,
                   pending_callback = ChainCallback (obj_get ''callback'' data) rest fin\<rparr>)],
              next_id := Suc (next_id ?st)\<rparr>)"
    using request_eq [of "ObjectPayload ?pl"] by blast
  then have "chain_array env (StepObject data # rest) fin st =
    (None, st\<lparr>trace := trace st @ [Step (length rest) (Requested (next_id st)), Fetch (next_id st) fc],
              pending := pending st @
                [(next_id st, \<lparr>pending_dataType = dt, pending_data = ObjectPayload ?pl,
                    pending_callback = ChainCallback (obj_get ''callback'' data) rest fin\<rparr>)],
              next_id := Suc (next_id st)\<rparr>)"
    using assms by (simp add: is_request_def emit_def)
  then show ?thesis by blast
qed

text \<open>
  When the only pending request settles, its closure is called, after events that belong
  to no step.
\<close>

lemma settle_single:
  assumes "pending st = [(k, p)]"
  shows "\<exists>X r. list_all quiet X \<and>
    settle env k out st = deliver env (pending_callback p) r (emit X (st\<lparr>pending := []\<rparr>))"
proof (cases out)
  case Rejected
  then have "settle env k out st = deliver env (pending_callback p) None (emit [ConsoleError] (st\<lparr>pending := []\<rparr>))"
    using assms by (simp add: settle_def on_catch_def emit_def)
  moreover have "list_all quiet [ConsoleError]" by (simp add: quiet_def)
  ultimately show ?thesis by blast
next
  case BodyRejected
  then have "settle env k out st = deliver env (pending_callback p) None (emit [ConsoleError] (st\<lparr>pending := []\<rparr>))"
    using assms by (simp add: settle_def on_catch_def emit_def)
  moreover have "list_all quiet [ConsoleError]" by (simp add: quiet_def)
  ultimately show ?thesis by blast
next
  case (Fulfilled r)
  let ?ks = "[''response_html'', ''response_text'', ''response_json'']"
  obtain b es where rt: "route env (pending_data p) r ?ks = (b, es)" by (cases "route env (pending_data p) r ?ks")
  have q: "list_all quiet es" using route_quiet [of env "pending_data p" r ?ks] rt by simp
  show ?thesis
  proof (cases b)
    case True
    then have "settle env k out st =
        deliver env (pending_callback p) None (emit (es @ [ConsoleError]) (st\<lparr>pending := []\<rparr>))"
      using assms Fulfilled rt by (simp add: settle_def on_catch_def emit_def)
    moreover have "list_all quiet (es @ [ConsoleError])" using q by (simp add: quiet_def)
    ultimately show ?thesis by blast
  next
    case False
    then have "settle env k out st =
        deliver env (pending_callback p) (Some r) (emit es (st\<lparr>pending := []\<rparr>))"
      using assms Fulfilled rt by (simp add: settle_def emit_def)
    then show ?thesis using q by blast
  qed
qed


lemma deliver_chain:
  "deliver env (ChainCallback cb rest fin) r st =
     caught (chain_array env rest fin
       (local_callback env cb (length rest) r (emit [Step (length rest) (ResponseArrived r)] st)))"
  by (simp add: deliver_def call_callbackSuccess_def chain_def)

lemma run_Cons: "run env (a # acts) st = run env acts (perform env st a)"
  by (simp add: run_def)




text \<open>
  The definitions that evaluate a run on the page of \<open>example_env\<close>.
\<close>

lemmas run_example =
  chain_def request_def settle_def on_catch_def deliver_def call_callbackSuccess_def caught_def
  local_callback_def guarded_def emit_def initial_def run_def perform_def example_env_def
  has_key_def obj_get_def truthy_def toLowerCase_def step_url_def with_show_def
  with_method_fields_def strip_control_def obj_delete_def formData_of_def js_string_def
  directive_def obj_set_def is_index_def index_value_def Let_def


subsection \<open>The order of the steps of a chain\<close>

text \<open>
  Events of the head step come before the events of the remaining steps.
\<close>

lemma step_numbers_append: "step_numbers (a @ b) = step_numbers a @ step_numbers b"
  by (simp add: step_numbers_def)

lemma step_numbers_head:
  assumes "\<forall>e \<in> set H. quiet e \<or> (\<exists>x. e = Step n x)"
  shows "\<forall>t \<in> set (step_numbers H). t = n"
  using assms by (induction H) (auto simp: step_numbers_def quiet_def split: event.splits)

lemma not_later_head:
  assumes "\<forall>e \<in> set H. quiet e \<or> (\<exists>x. e = Step n x)" and "t \<le> n"
  shows "\<forall>e \<in> set H. \<not> later_than t e"
  using assms by (auto simp: later_than_def quiet_def split: event.splits)

lemma waits_for_prepend:
  "\<forall>e \<in> set H. \<not> later_than t e \<Longrightarrow> waits_for t cb E \<Longrightarrow> waits_for t cb (H @ E)"
  by (induction H) simp_all

lemma waits_for_answer:
  assumes "\<forall>e \<in> set H. \<not> later_than t e"
  shows "waits_for t cb (H @ Step t (ResponseArrived r) # callback_events cb t r @ E)"
proof -
  have "waits_for t cb (Step t (ResponseArrived r) # callback_events cb t r @ E)" by simp
  then show ?thesis using assms by (rule waits_for_prepend [rotated])
qed

text \<open>
  A trace that waits for a request step, cut at an event of a later step: the answer lies
  in the part before the cut.
\<close>

lemma waits_for_decompose:
  assumes "waits_for t cb tr" and "tr = before @ e # after" and "later_than t e"
  shows "answered t cb before"
  using assms
proof (induction before arbitrary: tr)
  case Nil
  then show ?case by (auto simp: later_than_def split: event.splits stepEvent.splits)
next
  case (Cons b bs)
  have w: "waits_for t cb (b # (bs @ e # after))" using Cons.prems by simp
  show ?case
  proof (cases "\<exists>r. b = Step t (ResponseArrived r) \<and>
      take (length (callback_events cb t r)) (bs @ e # after) = callback_events cb t r")
    case True
    then obtain r where b: "b = Step t (ResponseArrived r)"
      and tk: "take (length (callback_events cb t r)) (bs @ e # after) = callback_events cb t r"
      by blast
    have "\<exists>p2. bs = callback_events cb t r @ p2"
    proof (cases "callback_events cb t r")
      case Nil
      then show ?thesis by simp
    next
      case (Cons c cs)
      then have c: "callback_events cb t r = [c]" and ct: "\<not> later_than t c"
        by (auto simp: callback_events_def later_than_def split: jsval.splits)
      show ?thesis
      proof (cases bs)
        case Nil
        then have "e = c" using tk c by simp
        then show ?thesis using ct Cons.prems(3) by simp
      next
        case (Cons b' bs')
        then show ?thesis using tk c by simp
      qed
    qed
    then obtain p2 where "bs = callback_events cb t r @ p2" by blast
    then have "b # bs = [] @ Step t (ResponseArrived r) # callback_events cb t r @ p2"
      by (simp add: b)
    then show ?thesis unfolding answered_def by blast
  next
    case False
    then have "waits_for t cb (bs @ e # after)"
      using w by (auto split: event.splits stepEvent.splits)
    then have "answered t cb bs" using Cons.IH Cons.prems(3) by blast
    then obtain r p1 p2 where "bs = p1 @ Step t (ResponseArrived r) # callback_events cb t r @ p2"
      unfolding answered_def by blast
    then have "b # bs = (b # p1) @ Step t (ResponseArrived r) # callback_events cb t r @ p2"
      by simp
    then show ?thesis unfolding answered_def by blast
  qed
qed

text \<open>
  The order of a chain from the order of its remaining steps.
\<close>

lemma in_order_Nil: "in_order steps []"
  by (simp add: in_order_def step_numbers_def)

lemma in_order_head:
  assumes H: "\<forall>e \<in> set H. quiet e \<or> (\<exists>x. e = Step (length rest) x)"
    and E: "in_order rest E"
    and rq: "\<And>data. s = StepObject data \<Longrightarrow> is_request data \<Longrightarrow>
        waits_for (length rest) (obj_get ''callback'' data) (H @ E)"
  shows "in_order (s # rest) (H @ E)"
proof -
  have nH: "\<forall>t \<in> set (step_numbers H). t = length rest" by (rule step_numbers_head [OF H])
  have nE: "\<forall>t \<in> set (step_numbers E). t < length rest" using E by (simp add: in_order_def)
  have sE: "sorted_wrt (\<lambda>a b. b \<le> a) (step_numbers E)" using E by (simp add: in_order_def)
  have sH: "sorted_wrt (\<lambda>a b. b \<le> a) (step_numbers H)"
  proof (rule sorted_wrt_mono_rel [OF _ sorted_wrt_true])
    fix x y
    assume "x \<in> set (step_numbers H)" and "y \<in> set (step_numbers H)"
    then have "x = length rest" and "y = length rest" using nH by blast+
    then show "y \<le> x" by simp
  qed
  have 1: "\<forall>t \<in> set (step_numbers (H @ E)). t < length (s # rest)"
    using nH nE by (auto simp: step_numbers_append)
  have 2: "sorted_wrt (\<lambda>a b. b \<le> a) (step_numbers (H @ E))"
    using nH nE sH sE by (auto simp: step_numbers_append sorted_wrt_append)
  have 3: "waits_for (length (s # rest) - Suc i) (obj_get ''callback'' data) (H @ E)"
    if i: "i < length (s # rest)" and d: "(s # rest) ! i = StepObject data" and r: "is_request data"
    for i data
  proof (cases i)
    case 0
    then show ?thesis using rq d r by simp
  next
    case (Suc j)
    then have j: "j < length rest" and dj: "rest ! j = StepObject data" using i d by simp_all
    have "waits_for (length rest - Suc j) (obj_get ''callback'' data) E"
      using E j dj r by (simp add: in_order_def)
    moreover have "\<forall>e \<in> set H. \<not> later_than (length rest - Suc j) e"
      by (rule not_later_head [OF H]) simp
    ultimately show ?thesis using Suc by (simp add: waits_for_prepend)
  qed
  show ?thesis unfolding in_order_def using 1 2 3 by blast
qed

lemma in_order_head_only:
  assumes "\<forall>e \<in> set H. quiet e \<or> (\<exists>x. e = Step (length rest) x)"
  shows "in_order (s # rest) H"
proof -
  have "\<forall>e \<in> set H. \<not> later_than (length rest) e"
    by (rule not_later_head [OF assms]) simp
  then have "waits_for (length rest) cb (H @ [])" for cb
    by (intro waits_for_prepend) simp_all
  then show ?thesis
    using in_order_head [OF assms in_order_Nil, of s] by simp
qed

text \<open>
  With one pending request and no timer, either nothing happens or this request settles.
\<close>

lemma run_single:
  assumes "pending st = [(k, p)]" and "timers st = []"
  shows "run env acts st = st \<or> (\<exists>out acts'. run env acts st = run env acts' (settle env k out st))"
proof (induction acts)
  case Nil
  show ?case by (simp add: run_def)
next
  case (Cons a acts)
  show ?case
  proof (cases "\<exists>out. a = Settle k out")
    case True
    then obtain out where "a = Settle k out" by blast
    then have "run env (a # acts) st = run env acts (settle env k out st)"
      by (simp add: run_Cons perform_def)
    then show ?thesis by blast
  next
    case False
    have "perform env st a = st"
    proof (cases a)
      case (Settle i out)
      then have "i \<noteq> k" using False by simp
      then show ?thesis using Settle assms(1) by (simp add: perform_def settle_def)
    next
      case (Fire i v)
      then show ?thesis using assms(2) by (simp add: perform_def fire_def)
    qed
    then show ?thesis using Cons.IH by (simp add: run_Cons)
  qed
qed

text \<open>
  A chain that has stopped at its head step.
\<close>

lemma stopped_in_order:
  assumes "pending st1 = []" and "timers st1 = []" and "trace st1 = trace st @ H"
    and "\<forall>e \<in> set H. quiet e \<or> (\<exists>x. e = Step (length rest) x)"
    and "st' = st1 \<or> st' = emit [ConsoleError] st1"
  shows "\<exists>E. trace (run env acts st') = trace st @ E \<and> in_order (s # rest) E"
proof -
  have idle: "run env acts st' = st'"
    using assms(1,2,5) by (auto intro: run_idle)
  obtain q where q: "trace st' = trace st @ (H @ q)" and qq: "list_all quiet q"
  proof (cases "st' = st1")
    case True
    then have "trace st' = trace st @ (H @ [])" using assms(3) by simp
    then show ?thesis using that [of "[]"] by simp
  next
    case False
    then have "trace st' = trace st @ (H @ [ConsoleError])" using assms(3,5) by auto
    then show ?thesis using that [of "[ConsoleError]"] by (simp add: quiet_def)
  qed
  have "\<forall>e \<in> set (H @ q). quiet e \<or> (\<exists>x. e = Step (length rest) x)"
    using assms(4) qq by (auto simp: list_all_iff)
  then have "in_order (s # rest) (H @ q)"
    by (rule in_order_head_only)
  then show ?thesis using idle q by auto
qed

text \<open>
  Every run of a chain started on an idle page is in the order of its steps, also when
  \<open>chain\<close> was called from the closure of a request and its exception is caught.
\<close>

lemma chain_in_order:
  assumes "pending st = []" and "timers st = []"
    and "st' = snd (chain_array env steps fin st) \<or> st' = caught (chain_array env steps fin st)"
  shows "\<exists>E. trace (run env acts st') = trace st @ E \<and> in_order steps E"
  using assms
proof (induction steps arbitrary: st st' acts)
  case Nil
  obtain H where H: "chain_array env [] fin st = (None, emit H st)" and qH: "step_numbers H = []"
  proof (cases fin)
    case None
    then have "chain_array env [] fin st = (None, emit [] st)" by (simp add: emit_def)
    then show ?thesis using that [of "[]"] by (simp add: step_numbers_def)
  next
    case (Some f)
    then have "chain_array env [] fin st =
        (None, emit (FinalCallbackCalled f # (if throws env f None then [ConsoleError] else [])) st)"
      by (simp add: guarded_def)
    then show ?thesis
      using that [of "FinalCallbackCalled f # (if throws env f None then [ConsoleError] else [])"]
      by (simp add: step_numbers_def)
  qed
  have st': "st' = emit H st" using Nil.prems(3) unfolding H by (auto simp: caught_def)
  have "run env acts st' = st'" using Nil.prems(1,2) by (intro run_idle) (simp_all add: st')
  moreover have "in_order [] H" by (simp add: in_order_def qH)
  ultimately show ?case by (auto simp: st')
next
  case (Cons s rest)
  note stop = stopped_in_order [where st = st and st' = st' and rest = rest and s = s and env = env
      and acts = acts]
  have failing: ?case if "chain_array env (s # rest) fin st = (Some e, st)" for e
  proof (rule stop [where ?st1.0 = st and H = "[]"])
    show "st' = st \<or> st' = emit [ConsoleError] st"
      using Cons.prems(3) that by (auto simp: caught_def)
  qed (use Cons.prems in simp_all)
  have going: ?case
    if c: "chain_array env (s # rest) fin st = chain_array env rest fin st1"
      and p: "pending st1 = []" "timers st1 = []" and t: "trace st1 = trace st @ H"
      and h: "\<forall>e \<in> set H. quiet e \<or> (\<exists>x. e = Step (length rest) x)"
      and n: "\<not> request_step s" for st1 H
  proof -
    have "st' = snd (chain_array env rest fin st1) \<or> st' = caught (chain_array env rest fin st1)"
      using Cons.prems(3) by (simp add: c)
    then obtain E where E: "trace (run env acts st') = trace st1 @ E" and o: "in_order rest E"
      using Cons.IH [OF p] by blast
    have "in_order (s # rest) (H @ E)"
      using n by (intro in_order_head [OF h o]) auto
    then show ?thesis using E t by auto
  qed
  show ?case
  proof (cases s)
    case StepNull
    then show ?thesis by (intro failing [of TypeError]) simp
  next
    case (StepFunction f)
    show ?thesis
    proof (rule going)
      show "chain_array env (s # rest) fin st =
          chain_array env rest fin (guarded env f None (Step (length rest) (CalledFunction f)) st)"
        by (simp add: StepFunction)
      show "trace (guarded env f None (Step (length rest) (CalledFunction f)) st) =
          trace st @ (Step (length rest) (CalledFunction f) # (if throws env f None then [ConsoleError] else []))"
        by (rule guarded_trace)
    qed (use Cons.prems StepFunction in \<open>auto simp: quiet_def\<close>)
  next
    case (StepString name)
    show ?thesis
    proof (cases "window_function env name")
      case None
      then show ?thesis using StepString by (intro failing [of TypeError]) simp
    next
      case (Some g)
      show ?thesis
      proof (rule stop)
        show "st' = guarded env g None (Step (length rest) (CalledGlobal name)) st \<or>
            st' = emit [ConsoleError] (guarded env g None (Step (length rest) (CalledGlobal name)) st)"
          using Cons.prems(3) StepString Some by (auto simp: caught_def)
        show "trace (guarded env g None (Step (length rest) (CalledGlobal name)) st) =
          trace st @ (Step (length rest) (CalledGlobal name) # (if throws env g None then [ConsoleError] else []))"
          by (rule guarded_trace)
      qed (use Cons.prems StepString in \<open>auto simp: quiet_def\<close>)
    qed
  next
    case (StepObject d)
    show ?thesis
    proof (cases "has_key ''function'' d")
      case True
      define st1 where "st1 = (case obj_get ''function'' d of
             JStr functionName \<Rightarrow>
               (case window_function env functionName of
                  Some g \<Rightarrow> guarded env g None (Step (length rest) (CalledNamed functionName)) st
                | None \<Rightarrow> st)
           | _ \<Rightarrow> st)"
      have "\<exists>H. trace st1 = trace st @ H \<and> (\<forall>e \<in> set H. quiet e \<or> (\<exists>x. e = Step (length rest) x))"
      proof (cases "\<exists>name g. obj_get ''function'' d = JStr name \<and> window_function env name = Some g")
        case True
        then obtain name g where "obj_get ''function'' d = JStr name" "window_function env name = Some g"
          by blast
        then have "trace st1 = trace st @
            (Step (length rest) (CalledNamed name) # (if throws env g None then [ConsoleError] else []))"
          by (simp add: st1_def guarded_trace)
        moreover have "\<forall>e \<in> set (Step (length rest) (CalledNamed name) #
            (if throws env g None then [ConsoleError] else [])). quiet e \<or> (\<exists>x. e = Step (length rest) x)"
          by (auto simp: quiet_def)
        ultimately show ?thesis by blast
      next
        case False
        then have "st1 = st" by (auto simp: st1_def split: jsval.splits option.splits)
        then have "trace st1 = trace st @ []" by simp
        then show ?thesis by (metis empty_iff list.set(1))
      qed
      then obtain H where t: "trace st1 = trace st @ H"
        and h: "\<forall>e \<in> set H. quiet e \<or> (\<exists>x. e = Step (length rest) x)" by blast
      show ?thesis
      proof (rule going [OF _ _ _ t h])
        show "chain_array env (s # rest) fin st = chain_array env rest fin st1"
          using True by (simp add: StepObject st1_def)
        show "pending st1 = []" "timers st1 = []"
          using Cons.prems(1,2) by (auto simp: st1_def split: jsval.splits option.splits)
        show "\<not> request_step s" using True by (simp add: StepObject is_request_def)
      qed
    next
      case nofun: False
      show ?thesis
      proof (cases "has_key ''method'' d")
        case False
        then show ?thesis using nofun StepObject
          by (intro failing [of MissingMethodOrFunction]) simp
      next
        case True
        then have rq: "is_request d" using nofun by (simp add: is_request_def)
        show ?thesis
        proof (cases "\<exists>m. obj_get ''method'' d = JStr m")
          case False
          then have "chain_array env (s # rest) fin st = (Some TypeError, st)"
            using nofun True StepObject by (auto split: jsval.splits)
          then show ?thesis by (rule failing)
        next
          case mth: True
          then obtain m where m: "obj_get ''method'' d = JStr m" by blast
          define t where "t = length rest"
          define cb where "cb = obj_get ''callback'' d"
          obtain fc dt pl where ch: "chain_array env (StepObject d # rest) fin st =
            (None, st\<lparr>trace := trace st @ [Step (length rest) (Requested (next_id st)), Fetch (next_id st) fc],
              pending := pending st @
                [(next_id st, \<lparr>pending_dataType = dt, pending_data = ObjectPayload pl,
                    pending_callback = ChainCallback (obj_get ''callback'' d) rest fin\<rparr>)],
              next_id := Suc (next_id st)\<rparr>)"
            using chain_array_request [OF rq m] by blast
          define p where "p = \<lparr>pending_dataType = dt, pending_data = ObjectPayload pl,
                    pending_callback = ChainCallback cb rest fin\<rparr>"
          define H0 where "H0 = [Step t (Requested (next_id st)), Fetch (next_id st) fc]"
          define st1 where "st1 = st\<lparr>trace := trace st @ H0,
              pending := pending st @ [(next_id st, p)], next_id := Suc (next_id st)\<rparr>"
          have ch1: "chain_array env (s # rest) fin st = (None, st1)"
            unfolding StepObject ch st1_def p_def H0_def t_def cb_def by (rule refl)
          have st': "st' = st1" using Cons.prems(3) unfolding ch1 by (auto simp: caught_def)
          have p1: "pending st1 = [(next_id st, p)]" and t1: "timers st1 = []"
            and tr1: "trace st1 = trace st @ H0"
            using Cons.prems(1,2) by (simp_all add: st1_def)
          have h0: "\<forall>e \<in> set H0. quiet e \<or> (\<exists>x. e = Step (length rest) x)"
            by (simp add: H0_def quiet_def t_def)
          from run_single [OF p1 t1, of env acts] show ?thesis
          proof
            assume "run env acts st1 = st1"
            then have "trace (run env acts st') = trace st @ H0" by (simp add: st' tr1)
            moreover have "in_order (s # rest) H0" by (rule in_order_head_only [OF h0])
            ultimately show ?thesis by blast
          next
            assume "\<exists>out acts'. run env acts st1 = run env acts' (settle env (next_id st) out st1)"
            then obtain out acts' where
              r: "run env acts st1 = run env acts' (settle env (next_id st) out st1)" by blast
            obtain X r' where X: "list_all quiet X"
              and se: "settle env (next_id st) out st1 =
                deliver env (pending_callback p) r' (emit X (st1\<lparr>pending := []\<rparr>))"
              using settle_single [OF p1] by blast
            define st2 where "st2 = local_callback env cb (length rest) r'
                (emit [Step (length rest) (ResponseArrived r')] (emit X (st1\<lparr>pending := []\<rparr>)))"
            have se': "settle env (next_id st) out st1 = caught (chain_array env rest fin st2)"
              unfolding se st2_def p_def by (simp add: deliver_chain)
            obtain q where q: "trace st2 =
                trace (emit [Step (length rest) (ResponseArrived r')] (emit X (st1\<lparr>pending := []\<rparr>))) @
                  callback_events cb (length rest) r' @ q" and qq: "list_all quiet q"
              unfolding st2_def using local_callback_trace by blast
            have p2: "pending st2 = []" "timers st2 = []"
              using t1 by (simp_all add: st2_def)
            define H where "H = (H0 @ X) @ Step t (ResponseArrived r') # callback_events cb t r' @ q"
            have tr2: "trace st2 = trace st @ H"
              unfolding q by (simp add: tr1 H_def t_def)
            obtain E where E: "trace (run env acts' (caught (chain_array env rest fin st2))) = trace st2 @ E"
              and o: "in_order rest E"
              using Cons.IH [OF p2, of "caught (chain_array env rest fin st2)" acts'] by blast
            have hH: "\<forall>e \<in> set H. quiet e \<or> (\<exists>x. e = Step (length rest) x)"
              using h0 X qq
              by (auto simp: H_def list_all_iff t_def callback_events_def split: jsval.splits)
            have nl: "\<forall>e \<in> set (H0 @ X). \<not> later_than t e"
              using h0 X by (auto simp: list_all_iff later_than_def quiet_def t_def split: event.splits)
            have w: "waits_for t cb (H @ E)"
              unfolding H_def using waits_for_answer [OF nl, of cb r' "q @ E"] by simp
            have "in_order (s # rest) (H @ E)"
            proof (rule in_order_head [OF hH o])
              fix data
              assume "s = StepObject data"
              then have "data = d" using StepObject by simp
              then show "waits_for (length rest) (obj_get ''callback'' data) (H @ E)"
                using w by (simp add: t_def cb_def)
            qed
            moreover have "trace (run env acts st') = trace st @ (H @ E)"
              by (simp add: st' r se' E tr2)
            ultimately show ?thesis by blast
          qed
        qed
      qed
    qed
  qed
qed

text \<open>
  Claim C6. \<open>chain\<close> is started on an idle page with any array of steps, and the
  platform then settles requests and fires timers in any order. In the trace the step
  numbers never go up: the steps run in the order of the array. And for every request
  step of the array, whenever the trace is cut at an event of a later step or at the final
  callback, the part before the cut holds the arrival of this request's response followed
  at once by the call of the step's own callback with it (when that is a function): no
  later step starts before.
\<close>

theorem chain_order:
  assumes "i < length steps" and "steps ! i = StepObject data" and "is_request data"
    and "trace (run env acts (snd (chain env (RawArray steps) fin initial))) = before @ e # after"
    and "later_than (length steps - Suc i) e"
  shows "answered (length steps - Suc i) (obj_get ''callback'' data) before \<and>
    sorted_wrt (\<lambda>a b. b \<le> a)
      (step_numbers (trace (run env acts (snd (chain env (RawArray steps) fin initial)))))"
proof -
  have "\<exists>E. trace (run env acts (snd (chain_array env steps fin initial))) = trace initial @ E \<and>
      in_order steps E"
    by (rule chain_in_order [where fin = fin]) (simp_all add: initial_def)
  then have o: "in_order steps (trace (run env acts (snd (chain env (RawArray steps) fin initial))))"
    by (auto simp: chain_def initial_def)
  then have "waits_for (length steps - Suc i) (obj_get ''callback'' data) (before @ e # after)"
    using assms(1-4) unfolding in_order_def by metis
  then have "answered (length steps - Suc i) (obj_get ''callback'' data) before"
    using assms(5) by (rule waits_for_decompose [OF _ refl])
  then show ?thesis using o by (simp add: in_order_def)
qed

text \<open>
  The theorem for the steps A (the function 1), B (a request with the callback 5) and C
  (the function 2): when the response \<open>ok\<close> arrives, C runs after B's callback has
  been called with it; while the request is pending, the trace ends with the \<open>fetch\<close>
  and C has not run.
\<close>

theorem chain_order_witness:
  "(1::nat) < length [StepFunction 1, StepObject [(''method'', JStr ''get''), (''callback'', JFun 5)],
      StepFunction 2] \<and>
   [StepFunction 1, StepObject [(''method'', JStr ''get''), (''callback'', JFun 5)], StepFunction 2] ! 1 =
     StepObject [(''method'', JStr ''get''), (''callback'', JFun 5)] \<and>
   is_request [(''method'', JStr ''get''), (''callback'', JFun 5)] \<and>
   trace (run example_env [Settle 0 (Fulfilled ''ok'')]
     (snd (chain example_env
        (RawArray [StepFunction 1, StepObject [(''method'', JStr ''get''), (''callback'', JFun 5)],
           StepFunction 2])
        (Some 3) initial))) =
     [Step 2 (CalledFunction 1), Step 1 (Requested 0),
      Fetch 0 \<lparr>fetch_url = ''/page?mime=txt'', fetch_method = ''GET'', fetch_body = None\<rparr>,
      Step 1 (ResponseArrived (Some ''ok'')), Step 1 (CalledCallback 5 (Some ''ok''))] @
     Step 0 (CalledFunction 2) # [FinalCallbackCalled 3] \<and>
   later_than 1 (Step 0 (CalledFunction 2)) \<and>
   answered 1 (JFun 5)
     [Step 2 (CalledFunction 1), Step 1 (Requested 0),
      Fetch 0 \<lparr>fetch_url = ''/page?mime=txt'', fetch_method = ''GET'', fetch_body = None\<rparr>,
      Step 1 (ResponseArrived (Some ''ok'')), Step 1 (CalledCallback 5 (Some ''ok''))] \<and>
   trace (run example_env []
     (snd (chain example_env
        (RawArray [StepFunction 1, StepObject [(''method'', JStr ''get''), (''callback'', JFun 5)],
           StepFunction 2])
        (Some 3) initial))) =
     [Step 2 (CalledFunction 1), Step 1 (Requested 0),
      Fetch 0 \<lparr>fetch_url = ''/page?mime=txt'', fetch_method = ''GET'', fetch_body = None\<rparr>]"
proof -
  let ?b = "[(''method'', JStr ''get''), (''callback'', JFun 5)]"
  let ?steps = "[StepFunction 1, StepObject ?b, StepFunction 2]"
  let ?before = "[Step 2 (CalledFunction 1), Step 1 (Requested 0),
      Fetch 0 \<lparr>fetch_url = ''/page?mime=txt'', fetch_method = ''GET'', fetch_body = None\<rparr>,
      Step 1 (ResponseArrived (Some ''ok'')), Step 1 (CalledCallback 5 (Some ''ok''))]"
  have h1: "(1::nat) < length ?steps" by simp
  have h2: "?steps ! 1 = StepObject ?b" by simp
  have h3: "is_request ?b" by (simp add: is_request_def has_key_def)
  have h4: "trace (run example_env [Settle 0 (Fulfilled ''ok'')]
      (snd (chain example_env (RawArray ?steps) (Some 3) initial))) =
      ?before @ Step 0 (CalledFunction 2) # [FinalCallbackCalled 3]"
    by (simp add: run_example)
  have h5: "later_than (length ?steps - Suc 1) (Step 0 (CalledFunction 2))"
    by (simp add: later_than_def)
  have "answered (length ?steps - Suc 1) (obj_get ''callback'' ?b) ?before"
    using chain_order [OF h1 h2 h3 h4 h5] by blast
  then have c: "answered 1 (JFun 5) ?before" by (simp add: obj_get_def)
  have l: "later_than 1 (Step 0 (CalledFunction 2))" by (simp add: later_than_def)
  have h6: "trace (run example_env []
      (snd (chain example_env (RawArray ?steps) (Some 3) initial))) =
     [Step 2 (CalledFunction 1), Step 1 (Requested 0),
      Fetch 0 \<lparr>fetch_url = ''/page?mime=txt'', fetch_method = ''GET'', fetch_body = None\<rparr>]"
    by (simp add: run_example)
  show ?thesis using h1 h2 h3 h4 l c h6 by blast
qed

end
